theory Spec2Isabelle
  imports Main
begin

section \<open>JavaScript strings\<close>

text \<open>
  A JavaScript string is modelled as a \<^typ>\<open>string\<close>, one \<^typ>\<open>char\<close> per code unit, so
  the model covers the code units \<open>0x00\<close> to \<open>0xFF\<close> (Latin-1).  On these, \<open>length\<close>
  is the \<open>.length\<close> of the source.

  \<open>isWhiteSpace\<close> is what \<open>String.prototype.trim\<close> removes and what \<open>\s\<close> matches
  (WhiteSpace and LineTerminator of ECMAScript) in that range: TAB, LF, VT, FF, CR, SP and
  NBSP.  \<open>isLineTerminator\<close> is what \<open>.\<close> refuses and what \<open>^\<close> and \<open>$\<close> look for under
  the \<open>m\<close> flag.
\<close>

definition isWhiteSpace :: "char \<Rightarrow> bool" where
  "isWhiteSpace c =
     (c = CHR 0x09 \<or> c = CHR 0x0A \<or> c = CHR 0x0B \<or> c = CHR 0x0C \<or> c = CHR 0x0D
      \<or> c = CHR 0x20 \<or> c = CHR 0xA0)"

definition isLineTerminator :: "char \<Rightarrow> bool" where
  "isLineTerminator c = (c = CHR 0x0A \<or> c = CHR 0x0D)"

definition trimStart :: "string \<Rightarrow> string" where
  "trimStart s = dropWhile isWhiteSpace s"

definition trimEnd :: "string \<Rightarrow> string" where
  "trimEnd s = rev (dropWhile isWhiteSpace (rev s))"

definition trim :: "string \<Rightarrow> string" where
  "trim s = trimEnd (trimStart s)"

text \<open>
  \<open>toLowerCase\<close> on Latin-1: \<open>A\<close>..\<open>Z\<close> and \<open>0xC0\<close>..\<open>0xDE\<close> (without the multiplication
  sign \<open>0xD7\<close>) move up by 32, every other code unit stays.
\<close>

definition toLowerChar :: "char \<Rightarrow> char" where
  "toLowerChar c =
     (let n = (of_char c :: nat)
      in if (65 \<le> n \<and> n \<le> 90) \<or> (192 \<le> n \<and> n \<le> 222 \<and> n \<noteq> 215)
         then char_of (n + 32) else c)"

definition toLowerCase :: "string \<Rightarrow> string" where
  "toLowerCase s = map toLowerChar s"

fun startsWith :: "string \<Rightarrow> string \<Rightarrow> bool" where
  "startsWith s [] = True"
| "startsWith [] (p # ps) = False"
| "startsWith (x # xs) (p # ps) = (x = p \<and> startsWith xs ps)"

fun includes_str :: "string \<Rightarrow> string \<Rightarrow> bool" where
  "includes_str [] sub = (sub = [])"
| "includes_str (x # xs) sub = (startsWith (x # xs) sub \<or> includes_str xs sub)"

fun join :: "string \<Rightarrow> string list \<Rightarrow> string" where
  "join sep [] = []"
| "join sep [x] = x"
| "join sep (x # y # ys) = x @ sep @ join sep (y # ys)"

section \<open>Regular expressions\<close>

text \<open>
  The regular expressions of the source are values of \<open>rx\<close>, and \<open>matcher\<close> is the
  backtracking matcher of ECMAScript, in the continuation-passing form in which the
  language definition gives it: a matcher takes the state and a continuation, tries its
  choices in priority order and returns the first result the continuation accepts.

  The state is the code unit before the current position (\<open>None\<close> at index 0), the rest of
  the input and the text of capture group 1.  The flags are resolved in the constructors:
  \<open>ChrI\<close> is a character under the \<open>i\<close> flag, \<open>BolM\<close> and \<open>EolM\<close> are \<open>^\<close> and \<open>$\<close>
  under the \<open>m\<close> flag.  \<open>StarG\<close> and \<open>StarL\<close> are \<open>*\<close> and \<open>*?\<close> on a character class;
  the source quantifies nothing else with a star.  \<open>Opt\<close> is the greedy \<open>?\<close>.
\<close>

datatype rx =
    Eps
  | Chr char
  | ChrI char
  | Cls "char \<Rightarrow> bool"
  | Seq rx rx
  | Alt rx rx
  | Opt rx
  | StarG "char \<Rightarrow> bool"
  | StarL "char \<Rightarrow> bool"
  | Cap rx
  | Bol
  | BolM
  | Eol
  | EolM

type_synonym mstate = "char option \<times> string \<times> string option"

text \<open>
  \<open>canonicalize\<close> is the case folding of the \<open>i\<close> flag (without \<open>u\<close>): the upper-case
  form when that is a single code unit; on Latin-1 the letters \<open>a\<close>..\<open>z\<close> and
  \<open>0xE0\<close>..\<open>0xFE\<close> (without the division sign \<open>0xF7\<close>) move down by 32.  The code
  units \<open>0xB5\<close> and \<open>0xFF\<close> fold to code units beyond Latin-1 to which no other Latin-1
  code unit folds; they stay as they are here, which leaves every comparison of two folded
  Latin-1 code units as it is.
\<close>

definition canonicalize :: "char \<Rightarrow> char" where
  "canonicalize c =
     (let n = (of_char c :: nat)
      in if (97 \<le> n \<and> n \<le> 122) \<or> (224 \<le> n \<and> n \<le> 254 \<and> n \<noteq> 247)
         then char_of (n - 32) else c)"

fun matcher :: "rx \<Rightarrow> mstate \<Rightarrow> (mstate \<Rightarrow> mstate option) \<Rightarrow> mstate option" where
  "matcher Eps st k = k st"
| "matcher (Chr c) (p, s, cp) k =
     (case s of [] \<Rightarrow> None | x # xs \<Rightarrow> if x = c then k (Some x, xs, cp) else None)"
| "matcher (ChrI c) (p, s, cp) k =
     (case s of [] \<Rightarrow> None
      | x # xs \<Rightarrow> if canonicalize x = canonicalize c then k (Some x, xs, cp) else None)"
| "matcher (Cls f) (p, s, cp) k =
     (case s of [] \<Rightarrow> None | x # xs \<Rightarrow> if f x then k (Some x, xs, cp) else None)"
| "matcher (Seq a b) st k = matcher a st (\<lambda>st'. matcher b st' k)"
| "matcher (Alt a b) st k =
     (case matcher a st k of Some r \<Rightarrow> Some r | None \<Rightarrow> matcher b st k)"
| "matcher (Opt a) st k =
     (case matcher a st k of Some r \<Rightarrow> Some r | None \<Rightarrow> k st)"
| "matcher (StarG f) (p, s, cp) k =
     (case s of [] \<Rightarrow> k (p, s, cp)
      | x # xs \<Rightarrow>
          if f x
          then (case matcher (StarG f) (Some x, xs, cp) k of
                  Some r \<Rightarrow> Some r | None \<Rightarrow> k (p, s, cp))
          else k (p, s, cp))"
| "matcher (StarL f) (p, s, cp) k =
     (case k (p, s, cp) of Some r \<Rightarrow> Some r
      | None \<Rightarrow>
          (case s of [] \<Rightarrow> None
           | x # xs \<Rightarrow> if f x then matcher (StarL f) (Some x, xs, cp) k else None))"
| "matcher (Cap a) (p, s, cp) k =
     matcher a (p, s, cp)
       (\<lambda>(p', s', cp'). k (p', s', Some (take (length s - length s') s)))"
| "matcher Bol (p, s, cp) k = (case p of None \<Rightarrow> k (p, s, cp) | Some c \<Rightarrow> None)"
| "matcher BolM (p, s, cp) k =
     (case p of None \<Rightarrow> k (p, s, cp)
      | Some c \<Rightarrow> if isLineTerminator c then k (p, s, cp) else None)"
| "matcher Eol (p, s, cp) k = (case s of [] \<Rightarrow> k (p, s, cp) | x # xs \<Rightarrow> None)"
| "matcher EolM (p, s, cp) k =
     (case s of [] \<Rightarrow> k (p, s, cp)
      | x # xs \<Rightarrow> if isLineTerminator x then k (p, s, cp) else None)"

fun Lit :: "string \<Rightarrow> rx" where
  "Lit [] = Eps"
| "Lit (c # cs) = Seq (Chr c) (Lit cs)"

fun LitI :: "string \<Rightarrow> rx" where
  "LitI [] = Eps"
| "LitI (c # cs) = Seq (ChrI c) (LitI cs)"

fun seqs :: "rx list \<Rightarrow> rx" where
  "seqs [] = Eps"
| "seqs (r # rs) = Seq r (seqs rs)"

text \<open>
  \<open>rx_exec r p pre s\<close> is \<open>RegExp.prototype.exec\<close> without the \<open>g\<close> flag: the match is
  tried at the current index and then at each later one, to the end of the input.  The
  result is the text before the match, the text after it, and capture group 1.
\<close>

fun rx_exec :: "rx \<Rightarrow> char option \<Rightarrow> string \<Rightarrow> string \<Rightarrow> (string \<times> string \<times> string option) option" where
  "rx_exec r p pre [] =
     (case matcher r (p, [], None) Some of
        Some (p', s', c) \<Rightarrow> Some (rev pre, s', c)
      | None \<Rightarrow> None)"
| "rx_exec r p pre (x # xs) =
     (case matcher r (p, x # xs, None) Some of
        Some (p', s', c) \<Rightarrow> Some (rev pre, s', c)
      | None \<Rightarrow> rx_exec r (Some x) (x # pre) xs)"

definition rx_test :: "rx \<Rightarrow> string \<Rightarrow> bool" where
  "rx_test r s = (rx_exec r None [] s \<noteq> None)"

text \<open>\<open>s.match(r)\<close> without the \<open>g\<close> flag, reduced to \<open>match[1]\<close>.\<close>

definition rx_match1 :: "rx \<Rightarrow> string \<Rightarrow> string option option" where
  "rx_match1 r s = (case rx_exec r None [] s of None \<Rightarrow> None | Some (pre, post, c) \<Rightarrow> Some c)"

text \<open>\<open>s.replace(r, '')\<close> without the \<open>g\<close> flag: the first match is cut out.\<close>

definition rx_replace_empty :: "rx \<Rightarrow> string \<Rightarrow> string" where
  "rx_replace_empty r s =
     (case rx_exec r None [] s of None \<Rightarrow> s | Some (pre, post, c) \<Rightarrow> pre @ post)"

text \<open>
  \<open>(s.match(r) || []).length\<close> with the \<open>g\<close> flag: the number of successive matches,
  each search starting where the last match ended, one code unit later after an empty match.
\<close>

function rx_count :: "rx \<Rightarrow> char option \<Rightarrow> string \<Rightarrow> nat" where
  "rx_count r p [] = (case matcher r (p, [], None) Some of Some st \<Rightarrow> 1 | None \<Rightarrow> 0)"
| "rx_count r p (x # xs) =
     (case matcher r (p, x # xs, None) Some of
        None \<Rightarrow> rx_count r (Some x) xs
      | Some (p', s', c) \<Rightarrow>
          if length s' < length (x # xs) then 1 + rx_count r p' s'
          else 1 + rx_count r (Some x) xs)"
  by pat_completeness auto
termination
  by (relation "measure (\<lambda>(r, p, s). length s)") auto

section \<open>Configuration (src/config/workflow.ts)\<close>

definition maxRetryAttempts :: nat where
  "maxRetryAttempts = 3"

definition validDiagramTypes :: "string list" where
  "validDiagramTypes =
     [''graph'', ''flowchart'', ''sequenceDiagram'', ''classDiagram'',
      ''stateDiagram'', ''erDiagram'', ''journey'', ''gantt'',
      ''pie'', ''quadrantChart'', ''requirement'', ''gitgraph'',
      ''mindmap'', ''timeline'', ''zenuml'', ''sankey'']"

definition minScriptLength :: nat where
  "minScriptLength = 20"

definition maxScriptLength :: nat where
  "maxScriptLength = 5000"

subsection \<open>Prompt templates\<close>

definition nl :: string where
  "nl = [CHR 0x0A]"

definition primary :: "string \<Rightarrow> string" where
  "primary conversation = join nl
     [''Generate a valid Mermaid diagram script based on this conversation.'',
      '''',
      ''CRITICAL REQUIREMENTS:'',
      ''1. Start with a valid diagram type: flowchart TD, graph LR, sequenceDiagram, etc.'',
      ''2. Use square brackets for all node labels: NodeName[Description]'',
      ''3. Use proper arrow syntax: A --> B or A -- label --> B'',
      ''4. No spaces in node IDs (use camelCase or underscores)'',
      ''5. All brackets must be balanced'',
      ''6. Use %% for comments (separate lines only)'',
      ''7. No HTML tags or markdown in labels'',
      '''',
      ''RETURN ONLY the raw Mermaid script, nothing else.'',
      ''If no meaningful diagram can be created, return: NO_DIAGRAM'',
      '''',
      ''Conversation:'',
      conversation]"

definition secondary :: "string \<Rightarrow> string" where
  "secondary conversation = join nl
     [''Create a simple Mermaid flowchart for this conversation:'',
      '''',
      conversation,
      '''',
      ''Requirements:'',
      ''- Start with: flowchart TD'',
      ''- Use format: NodeName[Description] --> OtherNode[Description]'',
      ''- Keep it simple and focused'',
      ''- Return only the Mermaid script or NO_DIAGRAM'']"

definition fallback :: "string \<Rightarrow> string" where
  "fallback conversation = join nl
     [''Generate a basic flowchart showing the main steps discussed:'',
      '''',
      conversation,
      '''',
      ''Format:'',
      ''flowchart TD'',
      ''  A[Step 1] --> B[Step 2]'',
      ''  '',
      ''Return only valid Mermaid syntax or NO_DIAGRAM'']"

text \<open>The \<open>switch\<close> compares with \<open>===\<close>: 1, 2, and \<open>default\<close> for every other number.\<close>

definition getPromptForAttempt :: "int \<Rightarrow> string \<Rightarrow> string" where
  "getPromptForAttempt attemptNumber conversation =
     (if attemptNumber = 1 then primary conversation
      else if attemptNumber = 2 then secondary conversation
      else fallback conversation)"

subsection \<open>User-facing messages\<close>

definition generationStarted :: string where
  "generationStarted = ''Generating workflow diagram...''"

definition retryingGeneration :: string where
  "retryingGeneration = ''Retrying with simplified approach...''"

definition generationSuccess :: string where
  "generationSuccess = ''Workflow diagram generated successfully!''"

definition noDiagramPossible :: string where
  "noDiagramPossible =
     ''Unable to create a meaningful workflow diagram from this conversation. Please try discussing specific processes or steps.''"

definition generationFailed :: string where
  "generationFailed = ''Failed to generate workflow diagram. Please try again.''"

definition validationFailed :: string where
  "validationFailed = ''Generated diagram contains syntax errors and cannot be displayed.''"

definition authenticationError :: string where
  "authenticationError = ''Authentication failed. Please check your API configuration.''"

definition rateLimitError :: string where
  "rateLimitError = ''Rate limit exceeded. Please wait a moment before trying again.''"

definition networkError :: string where
  "networkError = ''Network error occurred. Please check your connection and try again.''"

definition timeoutError :: string where
  "timeoutError = ''Diagram generation timed out. Please try again with a simpler request.''"

definition noContentError :: string where
  "noContentError = ''No conversation content available for diagram generation.''"

text \<open>\<open>Object.values(userMessages)\<close>, in the order of the object literal.\<close>

definition userMessages :: "string list" where
  "userMessages =
     [generationStarted, retryingGeneration, generationSuccess, noDiagramPossible,
      generationFailed, validationFailed, authenticationError, rateLimitError,
      networkError, timeoutError, noContentError]"

subsection \<open>validateMermaidScript\<close>

text \<open>\<open>/\[.*?\]/\<close>\<close>

definition rxBrackets :: rx where
  "rxBrackets = seqs [Chr CHR ''['', StarL (\<lambda>c. \<not> isLineTerminator c), Chr CHR '']'']"

text \<open>\<open>/-->|->|<--|<-/\<close>\<close>

definition rxArrows :: rx where
  "rxArrows = Alt (Lit ''-->'') (Alt (Lit ''->'') (Alt (Lit ''<--'') (Lit ''<-'')))"

text \<open>\<open>/\[/g\<close> and \<open>/\]/g\<close>\<close>

definition rxOpen :: rx where
  "rxOpen = Chr CHR ''[''"

definition rxClose :: rx where
  "rxClose = Chr CHR '']''"

text \<open>
  The three patterns of \<open>hasInvalidPatterns\<close>:
  \<open>/\.\.\.[^[\]]*?\]/\<close>, \<open>/\[.*?; %%/\<close> and \<open>/^\s*-->|<--\s*$/m\<close>.
\<close>

definition invalidPatterns :: "rx list" where
  "invalidPatterns =
     [seqs [Lit ''...'', StarL (\<lambda>c. c \<noteq> CHR ''['' \<and> c \<noteq> CHR '']''), Chr CHR '']''],
      seqs [Chr CHR ''['', StarL (\<lambda>c. \<not> isLineTerminator c), Lit ''; %%''],
      Alt (seqs [BolM, StarG isWhiteSpace, Lit ''-->''])
          (seqs [Lit ''<--'', StarG isWhiteSpace, EolM])]"

definition validateMermaidScript :: "string \<Rightarrow> bool" where
  "validateMermaidScript script =
     (if script = [] then False
      else
        let trimmed = trim script in
        if length trimmed < minScriptLength \<or> length trimmed > maxScriptLength then False
        else
          let hasValidDiagramType =
                list_ex (\<lambda>type. startsWith (toLowerCase trimmed) (toLowerCase type))
                  validDiagramTypes in
          if \<not> hasValidDiagramType then False
          else
            let hasBrackets = rx_test rxBrackets trimmed;
                hasArrows = rx_test rxArrows trimmed in
            if \<not> hasBrackets \<and> \<not> hasArrows \<and> \<not> includes_str trimmed ''participant''
               \<and> \<not> includes_str trimmed ''class''
            then False
            else
              let openBrackets = rx_count rxOpen None trimmed;
                  closeBrackets = rx_count rxClose None trimmed in
              if openBrackets \<noteq> closeBrackets then False
              else
                let hasInvalidPatterns = list_ex (\<lambda>pattern. rx_test pattern trimmed) invalidPatterns
                in \<not> hasInvalidPatterns)"

subsection \<open>cleanMermaidScript\<close>

text \<open>\<open>/^\s*```(?:mermaid)?\s*([\s\S]*?)\s*```\s*$/\<close>\<close>

definition fence :: string where
  "fence = [CHR 0x60, CHR 0x60, CHR 0x60]"

definition wrapperRegex :: rx where
  "wrapperRegex =
     seqs [Bol, StarG isWhiteSpace, Lit fence, Opt (Lit ''mermaid''), StarG isWhiteSpace,
           Cap (StarL (\<lambda>c. isWhiteSpace c \<or> \<not> isWhiteSpace c)),
           StarG isWhiteSpace, Lit fence, StarG isWhiteSpace, Eol]"

text \<open>
  \<open>/^here'?s?( a| the)? mermaid( diagram| script)?:?\s*/i\<close>,
  \<open>/^this is( a| the)? mermaid( diagram| script)?:?\s*/i\<close>,
  \<open>/^generated? mermaid( diagram| script)?:?\s*/i\<close>,
  \<open>/^workflow( diagram)?:?\s*/i\<close> and \<open>/^diagram:?\s*/i\<close>.
\<close>

definition prefixesToRemove :: "rx list" where
  "prefixesToRemove =
     [seqs [Bol, LitI ''here'', Opt (ChrI (CHR 0x27)), Opt (ChrI CHR ''s''),
            Opt (Alt (LitI '' a'') (LitI '' the'')), LitI '' mermaid'',
            Opt (Alt (LitI '' diagram'') (LitI '' script'')), Opt (ChrI CHR '':''),
            StarG isWhiteSpace],
      seqs [Bol, LitI ''this is'', Opt (Alt (LitI '' a'') (LitI '' the'')), LitI '' mermaid'',
            Opt (Alt (LitI '' diagram'') (LitI '' script'')), Opt (ChrI CHR '':''),
            StarG isWhiteSpace],
      seqs [Bol, LitI ''generate'', Opt (ChrI CHR ''d''), LitI '' mermaid'',
            Opt (Alt (LitI '' diagram'') (LitI '' script'')), Opt (ChrI CHR '':''),
            StarG isWhiteSpace],
      seqs [Bol, LitI ''workflow'', Opt (LitI '' diagram''), Opt (ChrI CHR '':''),
            StarG isWhiteSpace],
      seqs [Bol, LitI ''diagram'', Opt (ChrI CHR '':''), StarG isWhiteSpace]]"

definition cleanMermaidScript :: "string \<Rightarrow> string" where
  "cleanMermaidScript rawScript =
     (if rawScript = [] then []
      else
        let cleaned = trim rawScript;
            cleaned = (case rx_match1 wrapperRegex cleaned of
                         Some (Some m1) \<Rightarrow> if m1 \<noteq> [] then trim m1 else cleaned
                       | _ \<Rightarrow> cleaned);
            cleaned = foldl (\<lambda>cleaned prefix. rx_replace_empty prefix cleaned) cleaned
                        prefixesToRemove
        in trim cleaned)"

section \<open>Gemini integration (src/lib/gemini.ts)\<close>

subsection \<open>Conversation, thrown values, the backend\<close>

datatype ChatMessageRole = User | Assistant | System | Mermaid

fun roleText :: "ChatMessageRole \<Rightarrow> string" where
  "roleText User = ''user''"
| "roleText Assistant = ''assistant''"
| "roleText System = ''system''"
| "roleText Mermaid = ''mermaid''"

record ChatMessage =
  role :: ChatMessageRole
  content :: string

text \<open>
  What a \<open>throw\<close> carries: an instance of \<open>Error\<close> with its message, or any other value.
\<close>

datatype thrown = Error string | NonError

text \<open>
  One call of \<open>genAI.models.generateContentStream\<close>, as \<open>attemptMermaidGeneration\<close> sees
  it in its race against the timer of \<open>generationTimeoutMs\<close>: the stream ends in time with
  these chunks, or the request or the stream rejects in time, or the timer settles first.
  A chunk is the \<open>parts\<close> of its first candidate (\<open>None\<close> when one of \<open>candidates\<close>,
  \<open>candidates[0]\<close>, \<open>content\<close> and \<open>parts\<close> is missing); a part is its \<open>text\<close>.
\<close>

type_synonym part = "string option"
type_synonym chunk = "part list option"

datatype backend_outcome = Completes "chunk list" | Rejects thrown | TimerFirst

text \<open>
  The environment of a run: the configured key \<open>VITE_GEMINI_API_KEY\<close> and the backend, which
  answers the call of attempt \<open>n\<close> with the given prompt.
\<close>

record env =
  apiKey :: "string option"
  generateContentStream :: "nat \<Rightarrow> string \<Rightarrow> backend_outcome"

definition validateApiKey :: "env \<Rightarrow> bool" where
  "validateApiKey e =
     (case apiKey e of
        None \<Rightarrow> False
      | Some k \<Rightarrow> k \<noteq> [] \<and> trim k \<noteq> [] \<and> length k > 10)"

subsection \<open>attemptMermaidGeneration\<close>

fun partText :: "part \<Rightarrow> string" where
  "partText None = []"
| "partText (Some t) = t"

fun chunkText :: "chunk \<Rightarrow> string" where
  "chunkText None = []"
| "chunkText (Some parts) = concat (map partText parts)"

definition emptyResponse :: string where
  "emptyResponse = ''Empty response received from Gemini API''"

definition attemptMermaidGeneration :: "env \<Rightarrow> string \<Rightarrow> nat \<Rightarrow> thrown + string" where
  "attemptMermaidGeneration e conversationContent attemptNumber =
     (let prompt = getPromptForAttempt (int attemptNumber) conversationContent
      in case generateContentStream e attemptNumber prompt of
           TimerFirst \<Rightarrow> Inl (Error timeoutError)
         | Rejects err \<Rightarrow> Inl err
         | Completes chunks \<Rightarrow>
             let result = trim (concat (map chunkText chunks))
             in if result = [] then Inl (Error emptyResponse) else Inr result)"

subsection \<open>Error mapping\<close>

definition unexpectedError :: string where
  "unexpectedError = ''An unexpected error occurred while communicating with the AI service.''"

fun handleGeminiApiError :: "thrown \<Rightarrow> thrown" where
  "handleGeminiApiError (Error msg) =
     (let message = toLowerCase msg
      in if includes_str message ''api key'' \<or> includes_str message ''authentication''
            \<or> includes_str message ''unauthorized''
         then Error authenticationError
         else if includes_str message ''rate limit'' \<or> includes_str message ''quota''
            \<or> includes_str message ''too many requests''
         then Error rateLimitError
         else if includes_str message ''network'' \<or> includes_str message ''connection''
            \<or> includes_str message ''timeout''
         then Error networkError
         else Error msg)"
| "handleGeminiApiError NonError = Error unexpectedError"

fun handleMermaidGenerationError :: "thrown \<Rightarrow> thrown" where
  "handleMermaidGenerationError (Error msg) =
     (if msg \<in> set userMessages then Error msg else handleGeminiApiError (Error msg))"
| "handleMermaidGenerationError NonError = Error generationFailed"

subsection \<open>generateMermaidScriptFromConversation\<close>

text \<open>
  The run records what it does: the call of the executor, and the calls of the cleaner and
  of the validator, each with the attempt it belongs to.
\<close>

datatype event =
    Executed nat string
  | Cleaned nat string
  | Validated nat string

text \<open>
  How the body of one loop iteration ends: the function returns, the body throws, or control
  falls out of the \<open>try\<close> statement to the next iteration.
\<close>

datatype completion = Returns string | Throws thrown | Falls

definition sentinel :: string where
  "sentinel = ''NO_DIAGRAM''"

text \<open>The \<open>try\<close> block of the loop body.\<close>

definition tryBlock :: "env \<Rightarrow> string \<Rightarrow> nat \<Rightarrow> completion \<times> event list" where
  "tryBlock e conversationContent attempt =
     (let executed = Executed attempt (getPromptForAttempt (int attempt) conversationContent)
      in case attemptMermaidGeneration e conversationContent attempt of
           Inl err \<Rightarrow> (Throws err, [executed])
         | Inr script \<Rightarrow>
             if script = sentinel then (Returns sentinel, [executed])
             else
               let cleanedScript = cleanMermaidScript script;
                   events = [executed, Cleaned attempt script, Validated attempt cleanedScript]
               in if validateMermaidScript cleanedScript then (Returns cleanedScript, events)
                  else if attempt = maxRetryAttempts
                  then (Throws (Error validationFailed), events)
                  else (Falls, events))"

text \<open>The \<open>try\<close> block with its \<open>catch\<close> clause.\<close>

definition tryCatch :: "env \<Rightarrow> string \<Rightarrow> nat \<Rightarrow> completion \<times> event list" where
  "tryCatch e conversationContent attempt =
     (case tryBlock e conversationContent attempt of
        (Throws err, events) \<Rightarrow>
          if attempt = maxRetryAttempts then (Throws err, events) else (Falls, events)
      | other \<Rightarrow> other)"

text \<open>
  The \<open>for\<close> loop from \<open>attempt\<close> on, with the \<open>throw\<close> that follows it.
\<close>

function retryLoop :: "env \<Rightarrow> string \<Rightarrow> nat \<Rightarrow> (thrown + string) \<times> event list" where
  "retryLoop e conversationContent attempt =
     (if attempt \<le> maxRetryAttempts
      then (case tryCatch e conversationContent attempt of
              (Returns v, events) \<Rightarrow> (Inr v, events)
            | (Throws err, events) \<Rightarrow> (Inl err, events)
            | (Falls, events) \<Rightarrow>
                (case retryLoop e conversationContent (attempt + 1) of
                   (result, later) \<Rightarrow> (result, events @ later)))
      else (Inl (Error generationFailed), []))"
  by pat_completeness auto
termination
  by (relation "measure (\<lambda>(e, c, attempt). maxRetryAttempts + 1 - attempt)") auto

declare retryLoop.simps [simp del]

definition isUserOrAssistant :: "ChatMessage \<Rightarrow> bool" where
  "isUserOrAssistant message = (role message = User \<or> role message = Assistant)"

definition conversationText :: "ChatMessage list \<Rightarrow> string" where
  "conversationText messages =
     join (nl @ nl) (map (\<lambda>message. roleText (role message) @ '': '' @ content message) messages)"

text \<open>The outer \<open>try\<close> block.\<close>

definition generateBody :: "env \<Rightarrow> ChatMessage list \<Rightarrow> (thrown + string) \<times> event list" where
  "generateBody e conversationHistory =
     (if \<not> validateApiKey e then (Inl (Error authenticationError), [])
      else
        let userAndAssistantMessages = filter isUserOrAssistant conversationHistory
        in if length userAndAssistantMessages = 0 then (Inl (Error noContentError), [])
           else retryLoop e (conversationText userAndAssistantMessages) 1)"

definition generateMermaidScriptFromConversation ::
  "env \<Rightarrow> ChatMessage list \<Rightarrow> (thrown + string) \<times> event list" where
  "generateMermaidScriptFromConversation e conversationHistory =
     (case generateBody e conversationHistory of
        (Inl err, events) \<Rightarrow> (Inl (handleMermaidGenerationError err), events)
      | (Inr v, events) \<Rightarrow> (Inr v, events))"

subsection \<open>Notions used by the properties\<close>

text \<open>The number of occurrences of a code unit in a string.\<close>

definition occurrences :: "char \<Rightarrow> string \<Rightarrow> nat" where
  "occurrences c s = length (filter (\<lambda>x. x = c) s)"

text \<open>A small flowchart that the validator accepts.\<close>

definition sampleScript :: string where
  "sampleScript = ''flowchart TD'' @ nl @ ''  A[Start] --> B[End]''"

text \<open>
  A fenced code block around \<open>s\<close>: the opening fence with its language tag (\<open>[]\<close> for
  none), white space (in Markdown a line break), the text, white space, the closing fence.
\<close>

definition fencedBlock :: "string \<Rightarrow> string \<Rightarrow> string \<Rightarrow> string \<Rightarrow> string" where
  "fencedBlock tag before after s = fence @ tag @ before @ s @ after @ fence"

text \<open>
  The part of \<open>wrapperRegex\<close> behind the capture group, \<open>\s*```\s*$\<close>, and the class
  \<open>[\s\S]\<close> of the group.
\<close>

definition closing :: rx where
  "closing = seqs [StarG isWhiteSpace, Lit fence, StarG isWhiteSpace, Eol]"

definition anyChar :: "char \<Rightarrow> bool" where
  "anyChar = (\<lambda>c. isWhiteSpace c \<or> \<not> isWhiteSpace c)"

text \<open>
  Attempt \<open>i\<close> is reached when every earlier iteration has fallen through to the next one;
  \<open>eventsUntil\<close> is what those iterations have recorded.
\<close>

definition fallsUntil :: "env \<Rightarrow> string \<Rightarrow> nat \<Rightarrow> bool" where
  "fallsUntil e c i = list_all (\<lambda>j. fst (tryCatch e c j) = Falls) [1..<i]"

definition eventsUntil :: "env \<Rightarrow> string \<Rightarrow> nat \<Rightarrow> event list" where
  "eventsUntil e c i = concat (map (\<lambda>j. snd (tryCatch e c j)) [1..<i])"

text \<open>The attempt an event belongs to.\<close>

fun eventAttempt :: "event \<Rightarrow> nat" where
  "eventAttempt (Executed n p) = n"
| "eventAttempt (Cleaned n s) = n"
| "eventAttempt (Validated n s) = n"

text \<open>
  An authentication error, as \<open>handleGeminiApiError\<close> recognises it: an \<open>Error\<close> whose
  message, in lower case, contains \<open>api key\<close>, \<open>authentication\<close> or \<open>unauthorized\<close>.
\<close>

fun isAuthenticationError :: "thrown \<Rightarrow> bool" where
  "isAuthenticationError (Error msg) =
     (let message = toLowerCase msg
      in includes_str message ''api key'' \<or> includes_str message ''authentication''
         \<or> includes_str message ''unauthorized'')"
| "isAuthenticationError NonError = False"

text \<open>Sample runs: a key that passes \<open>validateApiKey\<close>, a conversation, and backends.\<close>

definition sampleKey :: string where
  "sampleKey = ''0123456789abcdef''"

definition sampleHistory :: "ChatMessage list" where
  "sampleHistory = [\<lparr>role = User, content = ''I want a login flow''\<rparr>]"

definition sampleContent :: string where
  "sampleContent = ''user: I want a login flow''"

definition envValid :: env where
  "envValid = \<lparr>apiKey = Some sampleKey,
     generateContentStream = (\<lambda>n prompt. Completes [Some [Some sampleScript]])\<rparr>"

definition envGarbageThenSentinel :: env where
  "envGarbageThenSentinel = \<lparr>apiKey = Some sampleKey,
     generateContentStream = (\<lambda>n prompt.
       if n = 1 then Completes [Some [Some ''garbage'']]
       else Completes [Some [Some ''NO_DIAGRAM'']])\<rparr>"

definition envEmpty :: env where
  "envEmpty = \<lparr>apiKey = Some sampleKey,
     generateContentStream = (\<lambda>n prompt. Completes [Some [Some ''  '', None], None])\<rparr>"

definition envAuthThenValid :: env where
  "envAuthThenValid = \<lparr>apiKey = Some sampleKey,
     generateContentStream = (\<lambda>n prompt.
       if n = 1 then Rejects (Error ''API key not valid'')
       else Completes [Some [Some sampleScript]])\<rparr>"

definition envAuthAlways :: env where
  "envAuthAlways = \<lparr>apiKey = Some sampleKey,
     generateContentStream = (\<lambda>n prompt. Rejects (Error ''API key not valid''))\<rparr>"

definition envNoKey :: env where
  "envNoKey = \<lparr>apiKey = None,
     generateContentStream = (\<lambda>n prompt. Completes [Some [Some sampleScript]])\<rparr>"

section \<open>Strings: trimming\<close>

lemma filter_dropWhile_disjoint:
  "(\<And>x. P x \<Longrightarrow> \<not> Q x) \<Longrightarrow> filter P (dropWhile Q xs) = filter P xs"
  by (induction xs) auto

lemma filter_trim:
  assumes "\<And>x. P x \<Longrightarrow> \<not> isWhiteSpace x"
  shows "filter P (trim s) = filter P s"
proof -
  have "filter P (trim s) = rev (filter P (dropWhile isWhiteSpace (rev (dropWhile isWhiteSpace s))))"
    by (simp add: trim_def trimEnd_def trimStart_def rev_filter)
  also have "\<dots> = rev (filter P (rev (dropWhile isWhiteSpace s)))"
    using assms by (simp add: filter_dropWhile_disjoint)
  also have "\<dots> = filter P (dropWhile isWhiteSpace s)"
    by (simp add: rev_filter)
  also have "\<dots> = filter P s"
    using assms by (simp add: filter_dropWhile_disjoint)
  finally show ?thesis .
qed

lemma length_trim_le: "length (trim s) \<le> length s"
proof -
  have "length (trim s) \<le> length (dropWhile isWhiteSpace s)"
    unfolding trim_def trimEnd_def trimStart_def
    by (metis length_dropWhile_le length_rev)
  also have "\<dots> \<le> length s" by (rule length_dropWhile_le)
  finally show ?thesis .
qed

lemma trim_leading_spaces: "trim (replicate n CHR '' '' @ s) = trim s"
  unfolding trim_def trimStart_def
  by (induction n) (simp_all add: isWhiteSpace_def)

section \<open>The validator\<close>

lemma rx_count_Chr: "rx_count (Chr c) p s = length (filter (\<lambda>x. x = c) s)"
proof (induction s arbitrary: p)
  case Nil
  show ?case by simp
next
  case (Cons x xs)
  show ?case by (simp add: Cons.IH)
qed

lemma validate_cong_trim:
  "s \<noteq> [] \<Longrightarrow> t \<noteq> [] \<Longrightarrow> trim s = trim t \<Longrightarrow> validateMermaidScript s = validateMermaidScript t"
  unfolding validateMermaidScript_def by simp

lemma sampleScript_valid: "validateMermaidScript sampleScript"
  by code_simp

text \<open>
  C6, as stated: every string whose length is below \<open>minScriptLength\<close> or above
  \<open>maxScriptLength\<close> is rejected.  The validator measures the trimmed text, so the upper
  bound fails on a valid script behind 5000 spaces: the string is longer than
  \<open>maxScriptLength\<close> and is accepted.
\<close>

theorem C6_long_string_counterexample:
  "length (replicate 5000 CHR '' '' @ sampleScript) > maxScriptLength
   \<and> validateMermaidScript (replicate 5000 CHR '' '' @ sampleScript) = True"
proof -
  have "validateMermaidScript (replicate 5000 CHR '' '' @ sampleScript)
        = validateMermaidScript sampleScript"
    by (rule validate_cong_trim) (simp_all add: trim_leading_spaces sampleScript_def)
  then show ?thesis
    using sampleScript_valid by (simp add: maxScriptLength_def sampleScript_def)
qed

text \<open>
  C6, amended: a string is rejected when its length is below \<open>minScriptLength\<close>, or when
  its length after trimming is below \<open>minScriptLength\<close> or above \<open>maxScriptLength\<close>,
  whatever else it contains.
\<close>

theorem C6_length_bounds_after_trim:
  "length s < minScriptLength \<or> length (trim s) < minScriptLength
     \<or> length (trim s) > maxScriptLength
   \<Longrightarrow> validateMermaidScript s = False"
proof -
  assume h: "length s < minScriptLength \<or> length (trim s) < minScriptLength
     \<or> length (trim s) > maxScriptLength"
  have "length (trim s) < minScriptLength \<or> length (trim s) > maxScriptLength"
    using h length_trim_le [of s] by auto
  then show ?thesis
    unfolding validateMermaidScript_def Let_def by auto
qed

theorem C6_length_bounds_after_trim_witness:
  "length ''flowchart TD'' < minScriptLength \<and> validateMermaidScript ''flowchart TD'' = False"
  using C6_length_bounds_after_trim [of "''flowchart TD''"] by (simp add: minScriptLength_def)

text \<open>
  C9: a string in which \<open>[\<close> and \<open>]\<close> do not occur equally often is rejected.
\<close>

theorem C9_unbalanced_brackets_invalid:
  "occurrences CHR ''['' s \<noteq> occurrences CHR '']'' s \<Longrightarrow> validateMermaidScript s = False"
proof -
  assume ne: "occurrences CHR ''['' s \<noteq> occurrences CHR '']'' s"
  have o: "rx_count rxOpen None (trim s) = occurrences CHR ''['' s"
    unfolding rxOpen_def rx_count_Chr occurrences_def
    by (subst filter_trim) (auto simp: isWhiteSpace_def)
  have c: "rx_count rxClose None (trim s) = occurrences CHR '']'' s"
    unfolding rxClose_def rx_count_Chr occurrences_def
    by (subst filter_trim) (auto simp: isWhiteSpace_def)
  show ?thesis
    unfolding validateMermaidScript_def Let_def o c using ne by simp
qed

theorem C9_unbalanced_brackets_invalid_witness:
  "occurrences CHR ''['' ''flowchart TD A[Start --> B[End]''
     \<noteq> occurrences CHR '']'' ''flowchart TD A[Start --> B[End]''
   \<and> validateMermaidScript ''flowchart TD A[Start --> B[End]'' = False"
  using C9_unbalanced_brackets_invalid [of "''flowchart TD A[Start --> B[End]''"]
  by (simp add: occurrences_def)

text \<open>
  C10: the validator rejects the sentinel \<open>NO_DIAGRAM\<close> itself.
\<close>

theorem C10_sentinel_invalid: "validateMermaidScript ''NO_DIAGRAM'' = False"
  by code_simp

section \<open>The matcher\<close>

lemma matcher_Lit:
  "matcher (Lit l) (p, l @ rest, cp) k = k (if l = [] then p else Some (last l), rest, cp)"
  by (induction l arbitrary: p) auto

lemma matcher_Lit_sound:
  "matcher (Lit l) (p, s, cp) k = Some r \<Longrightarrow> \<exists>v p'. s = l @ v \<and> k (p', v, cp) = Some r"
proof (induction l arbitrary: p s)
  case Nil
  then show ?case by auto
next
  case (Cons a l)
  then show ?case by (cases s) (auto split: if_splits)
qed

lemma matcher_StarG_all:
  "list_all f A \<Longrightarrow> rest = [] \<or> \<not> f (hd rest) \<Longrightarrow>
   k (if A = [] then p else Some (last A), rest, cp) = Some r \<Longrightarrow>
   matcher (StarG f) (p, A @ rest, cp) k = Some r"
proof (induction A arbitrary: p)
  case Nil
  then show ?case by (cases rest) auto
next
  case (Cons a A)
  from Cons.prems have "k (if A = [] then Some a else Some (last A), rest, cp) = Some r"
    by (cases "A = []") simp_all
  from Cons.IH [OF _ Cons.prems(2) this] Cons.prems(1)
  show ?case by simp
qed

lemma matcher_StarG_sound:
  "matcher (StarG f) (p, s, cp) k = Some r \<Longrightarrow>
   \<exists>u v p'. s = u @ v \<and> list_all f u \<and> k (p', v, cp) = Some r"
proof (induction s arbitrary: p)
  case Nil
  then have "[] = [] @ [] \<and> list_all f [] \<and> k (p, [], cp) = Some r" by simp
  then show ?case
    by (intro exI [where x = "[]"] exI [where x = p])
next
  case (Cons x xs)
  show ?case
  proof (cases "f x \<and> matcher (StarG f) (Some x, xs, cp) k = Some r")
    case True
    from True have "matcher (StarG f) (Some x, xs, cp) k = Some r" by simp
    from Cons.IH [OF this] obtain u v p' where "xs = u @ v" "list_all f u" "k (p', v, cp) = Some r"
      by (elim exE conjE)
    with True have "x # xs = (x # u) @ v \<and> list_all f (x # u) \<and> k (p', v, cp) = Some r" by simp
    then show ?thesis
      by (intro exI [where x = "x # u"] exI [where x = v] exI [where x = p'])
  next
    case False
    with Cons.prems have "k (p, x # xs, cp) = Some r"
      by (auto split: if_splits option.splits)
    then have "x # xs = [] @ (x # xs) \<and> list_all f [] \<and> k (p, x # xs, cp) = Some r" by simp
    then show ?thesis
      by (intro exI [where x = "[]"] exI [where x = "x # xs"] exI [where x = p])
  qed
qed

lemma matcher_StarL_first:
  "list_all f u \<Longrightarrow>
   (\<And>u1 u2 p'. u = u1 @ u2 \<Longrightarrow> u2 \<noteq> [] \<Longrightarrow> k (p', u2 @ v, cp) = None) \<Longrightarrow>
   k (if u = [] then p else Some (last u), v, cp) = Some r \<Longrightarrow>
   matcher (StarL f) (p, u @ v, cp) k = Some r"
proof (induction u arbitrary: p)
  case Nil
  then show ?case by simp
next
  case (Cons a u)
  have none: "k (p, (a # u) @ v, cp) = None"
    by (rule Cons.prems(2) [of "[]"]) simp_all
  have later: "\<And>u1 u2 p'. u = u1 @ u2 \<Longrightarrow> u2 \<noteq> [] \<Longrightarrow> k (p', u2 @ v, cp) = None"
  proof -
    fix u1 u2 p' assume "u = u1 @ u2" "u2 \<noteq> []"
    then show "k (p', u2 @ v, cp) = None"
      using Cons.prems(2) [of "a # u1" u2 p'] by simp
  qed
  from Cons.prems(3) have "k (if u = [] then Some a else Some (last u), v, cp) = Some r"
    by (cases "u = []") simp_all
  from Cons.IH [OF _ later this] Cons.prems(1) none
  show ?case by simp
qed

lemma fence_not_ws: "\<not> isWhiteSpace (CHR 0x60)"
  by (simp add: isWhiteSpace_def)

lemma closing_ok:
  "list_all isWhiteSpace B \<Longrightarrow>
   matcher closing (p, B @ fence, c) Some = Some (Some (CHR 0x60), [], c)"
proof -
  assume B: "list_all isWhiteSpace B"
  have "matcher (StarG isWhiteSpace) (p, B @ fence, c)
          (\<lambda>st. matcher (seqs [Lit fence, StarG isWhiteSpace, Eol]) st Some)
        = Some (Some (CHR 0x60), [], c)"
  proof (rule matcher_StarG_all [OF B])
    show "fence = [] \<or> \<not> isWhiteSpace (hd fence)" by (simp add: fence_def fence_not_ws)
    show "matcher (seqs [Lit fence, StarG isWhiteSpace, Eol])
            (if B = [] then p else Some (last B), fence, c) Some = Some (Some (CHR 0x60), [], c)"
      using matcher_Lit [of fence _ "[]"] by (simp add: fence_def)
  qed
  then show ?thesis by (simp add: closing_def)
qed

lemma closing_sound:
  assumes "matcher closing (p, x, c) Some = Some r"
  shows "\<exists>W W'. list_all isWhiteSpace W \<and> list_all isWhiteSpace W' \<and> x = W @ fence @ W'"
proof -
  from assms have "matcher (StarG isWhiteSpace) (p, x, c)
          (\<lambda>st. matcher (Lit fence) st (\<lambda>st. matcher (StarG isWhiteSpace) st (\<lambda>st. matcher Eol st Some)))
        = Some r"
    by (simp add: closing_def)
  from matcher_StarG_sound [OF this] obtain W v p1 where
    x: "x = W @ v" and W: "list_all isWhiteSpace W"
    and 1: "matcher (Lit fence) (p1, v, c) (\<lambda>st. matcher (StarG isWhiteSpace) st (\<lambda>st. matcher Eol st Some)) = Some r"
    by (elim exE conjE)
  from matcher_Lit_sound [OF 1] obtain v2 p2 where
    v: "v = fence @ v2" and 2: "matcher (StarG isWhiteSpace) (p2, v2, c) (\<lambda>st. matcher Eol st Some) = Some r"
    by (elim exE conjE)
  from matcher_StarG_sound [OF 2] obtain W' v3 p3 where
    v2: "v2 = W' @ v3" and W': "list_all isWhiteSpace W'" and 3: "matcher Eol (p3, v3, c) Some = Some r"
    by (elim exE conjE)
  from 3 have "v3 = []" by (cases v3) auto
  with x v v2 have "x = W @ fence @ W'" by simp
  with W W' show ?thesis by (intro exI [where x = W] exI [where x = W']) simp
qed

lemma ws_tail_mismatch:
  assumes "u \<noteq> []" and "\<not> isWhiteSpace (last u)"
    and "list_all isWhiteSpace W" and "list_all isWhiteSpace W'"
  shows "u @ B @ fence \<noteq> W @ fence @ W'"
proof
  assume eq: "u @ B @ fence = W @ fence @ W'"
  have "W' = []"
  proof (rule ccontr)
    assume ne: "W' \<noteq> []"
    then have "last (W @ fence @ W') = last W'" by simp
    moreover have "last (u @ B @ fence) = CHR 0x60" by (simp add: fence_def)
    ultimately have "last W' = CHR 0x60" using eq by simp
    moreover from ne assms(4) have "isWhiteSpace (last W')" by (simp add: list_all_iff)
    ultimately show False by (simp add: fence_not_ws)
  qed
  with eq have "(u @ B) @ fence = W @ fence" by simp
  then have "u @ B = W" by (simp only: append_same_eq)
  with assms(3) have "list_all isWhiteSpace u" by auto
  with assms(1) have "isWhiteSpace (last u)" by (simp add: list_all_iff)
  with assms(2) show False by simp
qed

lemma capture_step:
  assumes "t \<noteq> []" and "\<not> isWhiteSpace (last t)" and "list_all isWhiteSpace B"
  shows "matcher (Cap (StarL anyChar)) (p, t @ B @ fence, c) (\<lambda>st. matcher closing st Some)
         = Some (Some (CHR 0x60), [], Some t)"
proof -
  let ?k = "\<lambda>(p', s', cp'). matcher closing
      (p', s', Some (take (length (t @ B @ fence) - length s') (t @ B @ fence))) Some"
  have "matcher (StarL anyChar) (p, t @ (B @ fence), c) ?k = Some (Some (CHR 0x60), [], Some t)"
  proof (rule matcher_StarL_first)
    show "list_all anyChar t" by (simp add: anyChar_def list_all_iff)
  next
    fix u1 u2 p'
    assume split: "t = u1 @ u2" and ne: "u2 \<noteq> []"
    then have l: "\<not> isWhiteSpace (last u2)" using assms(2) by simp
    show "?k (p', u2 @ B @ fence, c) = None"
    proof (rule ccontr)
      assume "?k (p', u2 @ B @ fence, c) \<noteq> None"
      then obtain r where "matcher closing
          (p', u2 @ B @ fence, Some (take (length (t @ B @ fence) - length (u2 @ B @ fence)) (t @ B @ fence)))
          Some = Some r" by auto
      from closing_sound [OF this] obtain W W' where
        "list_all isWhiteSpace W" "list_all isWhiteSpace W'" "u2 @ B @ fence = W @ fence @ W'"
        by (elim exE conjE)
      with ws_tail_mismatch [OF ne l] show False by simp
    qed
  next
    show "?k (if t = [] then p else Some (last t), B @ fence, c) = Some (Some (CHR 0x60), [], Some t)"
      using assms(1,3) by (simp add: closing_ok)
  qed
  then show ?thesis by simp
qed

lemma matcher_StarG_stop:
  "\<not> f x \<Longrightarrow> matcher (StarG f) (p, x # xs, cp) k = k (p, x # xs, cp)"
  by simp

lemma matcher_Lit_None:
  "\<not> startsWith s l \<Longrightarrow> matcher (Lit l) (p, s, cp) k = None"
proof (induction l arbitrary: p s)
  case Nil
  then show ?case by simp
next
  case (Cons a l)
  then show ?case by (cases s) auto
qed

lemma startsWith_append:
  "length l \<le> length s \<Longrightarrow> startsWith (s @ x) l = startsWith s l"
  by (induction s l rule: startsWith.induct) auto

lemma wrapperRegex_unfold:
  "matcher wrapperRegex st k =
   matcher Bol st (\<lambda>st. matcher (StarG isWhiteSpace) st (\<lambda>st. matcher (Lit fence) st
     (\<lambda>st. matcher (Opt (Lit ''mermaid'')) st (\<lambda>st. matcher (StarG isWhiteSpace) st
       (\<lambda>st. matcher (Cap (StarL anyChar)) st (\<lambda>st. matcher closing st k))))))"
  by (simp only: wrapperRegex_def closing_def anyChar_def seqs.simps matcher.simps(1,5))

lemma wrapper_match:
  assumes tag: "tag = [] \<or> tag = ''mermaid''"
    and A: "list_all isWhiteSpace A" and B: "list_all isWhiteSpace B"
    and t: "t \<noteq> []" "\<not> isWhiteSpace (hd t)" "\<not> isWhiteSpace (last t)"
    and nm: "\<not> startsWith t ''mermaid''" "7 \<le> length t"
  shows "matcher wrapperRegex (None, fence @ tag @ A @ t @ B @ fence, None) Some
         = Some (Some (CHR 0x60), [], Some t)"
proof -
  let ?res = "Some (Some (CHR 0x60), [], Some t)"
  let ?k5 = "\<lambda>st. matcher (Cap (StarL anyChar)) st (\<lambda>st. matcher closing st Some)"
  let ?k4 = "\<lambda>st. matcher (StarG isWhiteSpace) st ?k5"
  have s5: "?k5 (p, t @ B @ fence, None) = ?res" for p
    by (rule capture_step [OF t(1) t(3) B])
  have s4: "?k4 (p, A @ t @ B @ fence, None) = ?res" for p
  proof (rule matcher_StarG_all [OF A])
    show "t @ B @ fence = [] \<or> \<not> isWhiteSpace (hd (t @ B @ fence))" using t by simp
    show "?k5 (if A = [] then p else Some (last A), t @ B @ fence, None) = ?res" by (rule s5)
  qed
  have s3: "matcher (Opt (Lit ''mermaid'')) (p, tag @ A @ t @ B @ fence, None) ?k4 = ?res" for p
  proof (cases "tag = []")
    case True
    have "\<not> startsWith (A @ t @ B @ fence) ''mermaid''"
    proof (cases A)
      case Nil
      with nm show ?thesis by (simp add: startsWith_append)
    next
      case (Cons a A')
      with A have "isWhiteSpace a" by simp
      then have "a \<noteq> CHR ''m''" by (auto simp: isWhiteSpace_def)
      with Cons show ?thesis by simp
    qed
    then have "matcher (Lit ''mermaid'') (p, A @ t @ B @ fence, None) ?k4 = None"
      by (rule matcher_Lit_None)
    with True s4 [of p] show ?thesis by (simp only: matcher.simps(7) append_Nil option.case)
  next
    case False
    with tag have m: "tag = ''mermaid''" by simp
    have "matcher (Lit ''mermaid'') (p, ''mermaid'' @ A @ t @ B @ fence, None) ?k4 = ?res"
      by (subst matcher_Lit) (rule s4)
    with m show ?thesis by (simp only: matcher.simps(7) option.case)
  qed
  have s2: "matcher (Lit fence) (p, fence @ tag @ A @ t @ B @ fence, None)
              (\<lambda>st. matcher (Opt (Lit ''mermaid'')) st ?k4) = ?res" for p
    by (subst matcher_Lit) (rule s3)
  have s1: "matcher (StarG isWhiteSpace) (p, fence @ tag @ A @ t @ B @ fence, None)
              (\<lambda>st. matcher (Lit fence) st (\<lambda>st. matcher (Opt (Lit ''mermaid'')) st ?k4)) = ?res" for p
  proof -
    have f: "fence @ tag @ A @ t @ B @ fence = CHR 0x60 # ([CHR 0x60, CHR 0x60] @ tag @ A @ t @ B @ fence)"
      by (simp add: fence_def)
    show ?thesis
      by (subst f, subst matcher_StarG_stop [of isWhiteSpace "CHR 0x60", OF fence_not_ws],
          subst f [symmetric]) (rule s2)
  qed
  show ?thesis
    by (subst wrapperRegex_unfold) (simp only: matcher.simps(11) option.case s1)
qed

section \<open>The cleaner\<close>

lemma trim_surround:
  assumes "list_all isWhiteSpace A" and "list_all isWhiteSpace B"
    and "t \<noteq> []" and "\<not> isWhiteSpace (hd t)" and "\<not> isWhiteSpace (last t)"
  shows "trim (A @ t @ B) = t"
proof -
  from assms(1) have "dropWhile isWhiteSpace (A @ t @ B) = dropWhile isWhiteSpace (t @ B)"
    by (intro dropWhile_append2) (simp add: list_all_iff)
  also from assms(3,4) have "\<dots> = t @ B" by (cases t) simp_all
  finally have 1: "trimStart (A @ t @ B) = t @ B" by (simp add: trimStart_def)
  from assms(2) have "dropWhile isWhiteSpace (rev B @ rev t) = dropWhile isWhiteSpace (rev t)"
    by (intro dropWhile_append2) (simp add: list_all_iff)
  also from assms(3,5) have "\<dots> = rev t" by (cases "rev t") (simp_all add: last_rev [symmetric] hd_rev)
  finally have "trimEnd (t @ B) = t" by (simp add: trimEnd_def)
  with 1 show ?thesis by (simp add: trim_def)
qed

lemma trim_decompose:
  assumes "trim s \<noteq> []"
  shows "\<exists>A B. list_all isWhiteSpace A \<and> list_all isWhiteSpace B \<and> s = A @ trim s @ B
           \<and> \<not> isWhiteSpace (hd (trim s)) \<and> \<not> isWhiteSpace (last (trim s))"
proof -
  let ?u = "dropWhile isWhiteSpace s"
  let ?A = "takeWhile isWhiteSpace s"
  let ?B = "rev (takeWhile isWhiteSpace (rev ?u))"
  have t: "trim s = rev (dropWhile isWhiteSpace (rev ?u))"
    by (simp add: trim_def trimEnd_def trimStart_def)
  have "rev ?u = takeWhile isWhiteSpace (rev ?u) @ dropWhile isWhiteSpace (rev ?u)" by simp
  then have "rev (rev ?u) = rev (takeWhile isWhiteSpace (rev ?u) @ dropWhile isWhiteSpace (rev ?u))"
    by (rule arg_cong)
  then have u: "?u = trim s @ ?B" by (simp only: rev_rev_ident rev_append t)
  have s: "s = ?A @ trim s @ ?B" using u by (metis takeWhile_dropWhile_id)
  have A: "list_all isWhiteSpace ?A" by (simp add: list_all_iff) (meson set_takeWhileD)
  have B: "list_all isWhiteSpace ?B" by (simp add: list_all_iff) (meson set_takeWhileD)
  from assms t have ne: "dropWhile isWhiteSpace (rev ?u) \<noteq> []" by simp
  then have "\<not> isWhiteSpace (hd (dropWhile isWhiteSpace (rev ?u)))" by (rule hd_dropWhile)
  with ne have l: "\<not> isWhiteSpace (last (trim s))" by (simp add: t last_rev)
  have "?u \<noteq> []" using assms u by (metis append_is_Nil_conv)
  then have "\<not> isWhiteSpace (hd ?u)" by (rule hd_dropWhile)
  with u assms have h: "\<not> isWhiteSpace (hd (trim s))" by (metis hd_append2)
  from A B s h l show ?thesis by blast
qed

lemma rx_exec_first:
  "matcher r (p, s, None) Some = Some (p', s', c) \<Longrightarrow> rx_exec r p pre s = Some (rev pre, s', c)"
  by (cases s) simp_all

lemma rx_exec_Bol_later: "rx_exec (Seq Bol r) (Some x) pre s = None"
  by (induction s arbitrary: x pre) simp_all

lemma rx_replace_Bol_None:
  "matcher (Seq Bol r) (None, s, None) Some = None \<Longrightarrow> rx_replace_empty (Seq Bol r) s = s"
  unfolding rx_replace_empty_def by (cases s) (simp_all add: rx_exec_Bol_later)

lemma case_fold_arith:
  fixes n m :: nat
  assumes "(if (97 \<le> n \<and> n \<le> 122) \<or> (224 \<le> n \<and> n \<le> 254 \<and> n \<noteq> 247) then n - 32 else n)
         = (if (97 \<le> m \<and> m \<le> 122) \<or> (224 \<le> m \<and> m \<le> 254 \<and> m \<noteq> 247) then m - 32 else m)"
  shows "(if (65 \<le> n \<and> n \<le> 90) \<or> (192 \<le> n \<and> n \<le> 222 \<and> n \<noteq> 215) then n + 32 else n)
       = (if (65 \<le> m \<and> m \<le> 90) \<or> (192 \<le> m \<and> m \<le> 222 \<and> m \<noteq> 215) then m + 32 else m)"
proof (cases "(97 \<le> n \<and> n \<le> 122) \<or> (224 \<le> n \<and> n \<le> 254 \<and> n \<noteq> 247)")
  case ln: True
  show ?thesis
  proof (cases "(97 \<le> m \<and> m \<le> 122) \<or> (224 \<le> m \<and> m \<le> 254 \<and> m \<noteq> 247)")
    case lm: True
    from assms ln lm have "n - 32 = m - 32" by (simp only: if_True)
    with ln lm have "n = m" by linarith
    then show ?thesis by simp
  next
    case lm: False
    from assms ln lm have e: "n - 32 = m" by (simp only: if_True if_False)
    from ln e have 1: "(65 \<le> m \<and> m \<le> 90) \<or> (192 \<le> m \<and> m \<le> 222 \<and> m \<noteq> 215)" by linarith
    from ln have 2: "\<not> ((65 \<le> n \<and> n \<le> 90) \<or> (192 \<le> n \<and> n \<le> 222 \<and> n \<noteq> 215))" by linarith
    from ln e have "m + 32 = n" by linarith
    with 1 2 show ?thesis by (simp only: if_True if_False)
  qed
next
  case ln: False
  show ?thesis
  proof (cases "(97 \<le> m \<and> m \<le> 122) \<or> (224 \<le> m \<and> m \<le> 254 \<and> m \<noteq> 247)")
    case lm: True
    from assms ln lm have e: "n = m - 32" by (simp only: if_True if_False)
    from lm e have 1: "(65 \<le> n \<and> n \<le> 90) \<or> (192 \<le> n \<and> n \<le> 222 \<and> n \<noteq> 215)" by linarith
    from lm have 2: "\<not> ((65 \<le> m \<and> m \<le> 90) \<or> (192 \<le> m \<and> m \<le> 222 \<and> m \<noteq> 215))" by linarith
    from lm e have "n + 32 = m" by linarith
    with 1 2 show ?thesis by (simp only: if_True if_False)
  next
    case lm: False
    from assms ln lm have "n = m" by (simp only: if_False)
    then show ?thesis by simp
  qed
qed


lemma canonicalize_lower:
  assumes "canonicalize x = canonicalize y"
  shows "toLowerChar x = toLowerChar y"
proof -
  define n m where "n = (of_char x :: nat)" and "m = (of_char y :: nat)"
  let ?f = "\<lambda>n::nat. if (97 \<le> n \<and> n \<le> 122) \<or> (224 \<le> n \<and> n \<le> 254 \<and> n \<noteq> 247) then n - 32 else n"
  let ?g = "\<lambda>n::nat. if (65 \<le> n \<and> n \<le> 90) \<or> (192 \<le> n \<and> n \<le> 222 \<and> n \<noteq> 215) then n + 32 else n"
  have nb: "n < 256" "m < 256" by (simp_all add: n_def m_def)
  have cx: "canonicalize x = char_of (?f n)" and cy: "canonicalize y = char_of (?f m)"
    by (simp_all add: canonicalize_def Let_def n_def m_def)
  have lx: "toLowerChar x = char_of (?g n)" and ly: "toLowerChar y = char_of (?g m)"
    by (simp_all add: toLowerChar_def Let_def n_def m_def)
  from assms cx cy have "(char_of (?f n) :: char) = char_of (?f m)" by simp
  then have "?f n mod 256 = ?f m mod 256"
    by (simp only: char_of_eq_iff take_bit_eq_mod) simp
  moreover from nb have "?f n < 256" "?f m < 256" by auto
  ultimately have "?f n = ?f m" by simp
  then have "?g n = ?g m" by (rule case_fold_arith)
  with lx ly show ?thesis by simp
qed

lemma lower_types:
  "map toLowerCase validDiagramTypes =
     [''graph'', ''flowchart'', ''sequencediagram'', ''classdiagram'',
      ''statediagram'', ''erdiagram'', ''journey'', ''gantt'',
      ''pie'', ''quadrantchart'', ''requirement'', ''gitgraph'',
      ''mindmap'', ''timeline'', ''zenuml'', ''sankey'']"
  by code_simp

lemma valid_trimmed:
  assumes "validateMermaidScript s"
  shows "s \<noteq> [] \<and> minScriptLength \<le> length (trim s)
         \<and> list_ex (\<lambda>type. startsWith (toLowerCase (trim s)) type) (map toLowerCase validDiagramTypes)"
  using assms unfolding validateMermaidScript_def Let_def
  by (auto simp: list_ex_iff split: if_splits)

lemma valid_head:
  assumes "validateMermaidScript s"
  shows "\<exists>a b rest. trim s = a # b # rest
           \<and> toLowerChar a \<noteq> CHR ''h'' \<and> toLowerChar a \<noteq> CHR ''w'' \<and> toLowerChar a \<noteq> CHR ''d''
           \<and> (toLowerChar a = CHR ''t'' \<longrightarrow> toLowerChar b \<noteq> CHR ''h'')
           \<and> (toLowerChar a = CHR ''g'' \<longrightarrow> toLowerChar b \<noteq> CHR ''e'')
           \<and> (toLowerChar a = CHR ''m'' \<longrightarrow> toLowerChar b \<noteq> CHR ''e'')"
proof -
  from valid_trimmed [OF assms] have len: "20 \<le> length (trim s)"
    and ex: "list_ex (\<lambda>type. startsWith (toLowerCase (trim s)) type) (map toLowerCase validDiagramTypes)"
    by (simp_all add: minScriptLength_def)
  from len obtain a b rest where t: "trim s = a # b # rest"
    by (cases "trim s"; cases "tl (trim s)") auto
  from ex show ?thesis
    unfolding lower_types t by (auto simp: toLowerCase_def)
qed

lemma prefix_first:
  "canonicalize a \<noteq> canonicalize c \<Longrightarrow>
   matcher (Seq Bol (Seq (LitI (c # w)) r)) (None, a # xs, None) k = None"
  by simp

lemma prefix_second:
  "canonicalize b \<noteq> canonicalize c2 \<Longrightarrow>
   matcher (Seq Bol (Seq (LitI (c1 # c2 # w)) r)) (None, a # b # xs, None) k = None"
  by simp

lemma lower_letters:
  "toLowerChar CHR ''h'' = CHR ''h''" "toLowerChar CHR ''t'' = CHR ''t''"
  "toLowerChar CHR ''g'' = CHR ''g''" "toLowerChar CHR ''e'' = CHR ''e''"
  "toLowerChar CHR ''w'' = CHR ''w''" "toLowerChar CHR ''d'' = CHR ''d''"
  "toLowerChar CHR ''m'' = CHR ''m''"
  by (simp_all add: toLowerChar_def)

lemma prefixes_unchanged:
  assumes "toLowerChar a \<noteq> CHR ''h''" and "toLowerChar a \<noteq> CHR ''w''"
    and "toLowerChar a \<noteq> CHR ''d''"
    and "toLowerChar a = CHR ''t'' \<longrightarrow> toLowerChar b \<noteq> CHR ''h''"
    and "toLowerChar a = CHR ''g'' \<longrightarrow> toLowerChar b \<noteq> CHR ''e''"
  shows "foldl (\<lambda>cleaned prefix. rx_replace_empty prefix cleaned) (a # b # rest) prefixesToRemove
         = a # b # rest"
proof -
  have h: "canonicalize a \<noteq> canonicalize CHR ''h''"
    using canonicalize_lower [of a "CHR ''h''"] assms(1) by (auto simp: lower_letters)
  have w: "canonicalize a \<noteq> canonicalize CHR ''w''"
    using canonicalize_lower [of a "CHR ''w''"] assms(2) by (auto simp: lower_letters)
  have d: "canonicalize a \<noteq> canonicalize CHR ''d''"
    using canonicalize_lower [of a "CHR ''d''"] assms(3) by (auto simp: lower_letters)
  have t: "canonicalize a \<noteq> canonicalize CHR ''t'' \<or> canonicalize b \<noteq> canonicalize CHR ''h''"
    using canonicalize_lower [of a "CHR ''t''"] canonicalize_lower [of b "CHR ''h''"] assms(4)
    by (auto simp: lower_letters)
  have g: "canonicalize a \<noteq> canonicalize CHR ''g'' \<or> canonicalize b \<noteq> canonicalize CHR ''e''"
    using canonicalize_lower [of a "CHR ''g''"] canonicalize_lower [of b "CHR ''e''"] assms(5)
    by (auto simp: lower_letters)
  have 1: "rx_replace_empty (Seq Bol (Seq (LitI ''here'') r)) (a # b # rest) = a # b # rest" for r
    by (rule rx_replace_Bol_None) (rule prefix_first [OF h])
  have 2: "rx_replace_empty (Seq Bol (Seq (LitI ''this is'') r)) (a # b # rest) = a # b # rest" for r
    using t by (intro rx_replace_Bol_None) (auto intro: prefix_first prefix_second)
  have 3: "rx_replace_empty (Seq Bol (Seq (LitI ''generate'') r)) (a # b # rest) = a # b # rest" for r
    using g by (intro rx_replace_Bol_None) (auto intro: prefix_first prefix_second)
  have 4: "rx_replace_empty (Seq Bol (Seq (LitI ''workflow'') r)) (a # b # rest) = a # b # rest" for r
    by (rule rx_replace_Bol_None) (rule prefix_first [OF w])
  have 5: "rx_replace_empty (Seq Bol (Seq (LitI ''diagram'') r)) (a # b # rest) = a # b # rest" for r
    by (rule rx_replace_Bol_None) (rule prefix_first [OF d])
  show ?thesis
    by (simp only: prefixesToRemove_def foldl.simps seqs.simps 1 2 3 4 5)
qed

lemma trim_idem:
  assumes "trim s \<noteq> []"
  shows "trim (trim s) = trim s"
proof -
  from trim_decompose [OF assms] obtain A B where
    hd: "\<not> isWhiteSpace (hd (trim s))" and last: "\<not> isWhiteSpace (last (trim s))"
    by (elim exE conjE)
  have "trim ([] @ trim s @ []) = trim s"
    using _ _ assms hd last by (rule trim_surround) simp_all
  then show ?thesis by simp
qed

lemma clean_fencedBlock:
  assumes v: "validateMermaidScript s"
    and tag: "tag = [] \<or> tag = ''mermaid''"
    and W1: "list_all isWhiteSpace before" and W2: "list_all isWhiteSpace after"
  shows "cleanMermaidScript (fencedBlock tag before after s) = trim s"
proof -
  define t where "t = trim s"
  let ?raw = "fencedBlock tag before after s"
  from valid_head [OF v] obtain a b rest where
    t: "t = a # b # rest"
    and h: "toLowerChar a \<noteq> CHR ''h''" "toLowerChar a \<noteq> CHR ''w''" "toLowerChar a \<noteq> CHR ''d''"
      "toLowerChar a = CHR ''t'' \<longrightarrow> toLowerChar b \<noteq> CHR ''h''"
      "toLowerChar a = CHR ''g'' \<longrightarrow> toLowerChar b \<noteq> CHR ''e''"
      "toLowerChar a = CHR ''m'' \<longrightarrow> toLowerChar b \<noteq> CHR ''e''"
    unfolding t_def by (elim exE conjE)
  from valid_trimmed [OF v] have len: "7 \<le> length t" by (simp add: minScriptLength_def t_def)
  from t have ne: "t \<noteq> []" by simp
  then have "trim s \<noteq> []" by (simp add: t_def)
  from trim_decompose [OF this] obtain A B where
    A: "list_all isWhiteSpace A" and B: "list_all isWhiteSpace B" and s: "s = A @ t @ B"
    and hd: "\<not> isWhiteSpace (hd t)" and last: "\<not> isWhiteSpace (last t)"
    unfolding t_def [symmetric] by (elim exE conjE)
  have nm: "\<not> startsWith t ''mermaid''"
    using h(6) by (auto simp: t lower_letters)
  have raw: "?raw = fence @ tag @ (before @ A) @ t @ (B @ after) @ fence"
    by (simp add: fencedBlock_def s)
  have raw_ne: "?raw \<noteq> []" by (simp add: fencedBlock_def fence_def)
  have "trim ([] @ ?raw @ []) = ?raw"
    by (rule trim_surround) (simp_all add: fencedBlock_def fence_def fence_not_ws)
  then have trim_raw: "trim ?raw = ?raw" by simp
  have "matcher wrapperRegex (None, fence @ tag @ (before @ A) @ t @ (B @ after) @ fence, None) Some
        = Some (Some (CHR 0x60), [], Some t)"
    using tag _ _ ne hd last nm len
    by (rule wrapper_match) (use W1 W2 A B in simp_all)
  then have "rx_exec wrapperRegex None [] ?raw = Some (rev [], [], Some t)"
    unfolding raw by (rule rx_exec_first)
  then have m1: "rx_match1 wrapperRegex ?raw = Some (Some t)"
    by (simp add: rx_match1_def)
  have "trim ([] @ t @ []) = t"
    using _ _ ne hd last by (rule trim_surround) simp_all
  then have trim_t: "trim t = t" by simp
  have pre: "foldl (\<lambda>cleaned prefix. rx_replace_empty prefix cleaned) t prefixesToRemove = t"
    unfolding t by (rule prefixes_unchanged [OF h(1-5)])
  have "cleanMermaidScript ?raw = t"
    unfolding cleanMermaidScript_def Let_def
    by (simp only: raw_ne trim_raw m1 option.case ne trim_t pre if_False if_True not_False_eq_True)
  then show ?thesis by (simp add: t_def)
qed

text \<open>
  C7, amended: for every script \<open>s\<close> that the validator accepts and every fenced code
  block around \<open>s\<close> whose language tag is \<open>mermaid\<close> or absent, the cleaner returns the
  trimmed script, so that cleaning the block and validating gives the verdict of
  validating \<open>s\<close>.
\<close>

theorem C7_fenced:
  "validateMermaidScript s \<Longrightarrow> tag = [] \<or> tag = ''mermaid'' \<Longrightarrow>
   list_all isWhiteSpace before \<Longrightarrow> list_all isWhiteSpace after \<Longrightarrow>
   cleanMermaidScript (fencedBlock tag before after s) = trim s
   \<and> validateMermaidScript (cleanMermaidScript (fencedBlock tag before after s))
       = validateMermaidScript s"
proof -
  assume v: "validateMermaidScript s" and tag: "tag = [] \<or> tag = ''mermaid''"
    and W: "list_all isWhiteSpace before" "list_all isWhiteSpace after"
  have c: "cleanMermaidScript (fencedBlock tag before after s) = trim s"
    by (rule clean_fencedBlock [OF v tag W])
  from valid_trimmed [OF v] have ne: "s \<noteq> []" "trim s \<noteq> []"
    by (auto simp: minScriptLength_def)
  have "validateMermaidScript (trim s) = validateMermaidScript s"
    using ne by (intro validate_cong_trim) (simp_all add: trim_idem)
  with c show ?thesis by simp
qed

text \<open>
  C7, as stated: the same for every fenced code block, with or without a language tag.
  The wrapper pattern knows the tag \<open>mermaid\<close> only: with the tag \<open>text\<close> the tag stays
  in the cleaned text, which the validator rejects.
\<close>

theorem C7_fenced_counterexample:
  "validateMermaidScript sampleScript
   \<and> validateMermaidScript (cleanMermaidScript (fencedBlock ''text'' nl nl sampleScript)) = False"
  by code_simp

theorem C7_fenced_witness:
  "validateMermaidScript sampleScript \<and> list_all isWhiteSpace nl
   \<and> cleanMermaidScript (fencedBlock ''mermaid'' nl nl sampleScript) = trim sampleScript
   \<and> validateMermaidScript (cleanMermaidScript (fencedBlock ''mermaid'' nl nl sampleScript))
       = validateMermaidScript sampleScript"
proof -
  have w: "list_all isWhiteSpace nl" by (simp add: nl_def isWhiteSpace_def)
  have tag: "''mermaid'' = [] \<or> ''mermaid'' = ''mermaid''" by simp
  from C7_fenced [OF sampleScript_valid tag w w] sampleScript_valid w show ?thesis by blast
qed

section \<open>The prompt selector\<close>

lemma join_contains:
  "x \<in> set xs \<Longrightarrow> \<exists>before after. join sep xs = before @ x @ after"
proof (induction sep xs rule: join.induct)
  case (1 sep)
  then show ?case by simp
next
  case (2 sep y)
  then have "join sep [y] = [] @ x @ []" by simp
  then show ?case by blast
next
  case (3 sep y z zs)
  show ?case
  proof (cases "x = y")
    case True
    then have "join sep (y # z # zs) = [] @ x @ (sep @ join sep (z # zs))" by simp
    then show ?thesis by blast
  next
    case False
    with 3 obtain b a where "join sep (z # zs) = b @ x @ a" by auto
    then have "join sep (y # z # zs) = (y @ sep @ b) @ x @ a" by simp
    then show ?thesis by blast
  qed
qed

text \<open>
  C8: for every conversation text \<open>X\<close> the prompts of the attempts 1, 2 and 3 are pairwise
  distinct and not empty, each contains \<open>X\<close>, and every attempt from 3 on gets the prompt
  of attempt 3.
\<close>

theorem C8_prompts:
  "getPromptForAttempt 1 X \<noteq> getPromptForAttempt 2 X
   \<and> getPromptForAttempt 1 X \<noteq> getPromptForAttempt 3 X
   \<and> getPromptForAttempt 2 X \<noteq> getPromptForAttempt 3 X
   \<and> (\<forall>n \<in> {1, 2, 3}. getPromptForAttempt n X \<noteq> []
         \<and> (\<exists>before after. getPromptForAttempt n X = before @ X @ after))
   \<and> (\<forall>n \<ge> 3. getPromptForAttempt n X = getPromptForAttempt 3 X)"
proof -
  have d12: "primary X \<noteq> secondary X"
    by (simp add: primary_def secondary_def)
  have d13: "primary X \<noteq> fallback X"
    by (simp add: primary_def fallback_def)
  have d23: "secondary X \<noteq> fallback X"
    by (simp add: secondary_def fallback_def)
  have n1: "primary X \<noteq> []" by (simp add: primary_def)
  have n2: "secondary X \<noteq> []" by (simp add: secondary_def)
  have n3: "fallback X \<noteq> []" by (simp add: fallback_def)
  have c1: "\<exists>before after. primary X = before @ X @ after"
    unfolding primary_def by (rule join_contains) simp
  have c2: "\<exists>before after. secondary X = before @ X @ after"
    unfolding secondary_def by (rule join_contains) simp
  have c3: "\<exists>before after. fallback X = before @ X @ after"
    unfolding fallback_def by (rule join_contains) simp
  show ?thesis
    using d12 d13 d23 n1 n2 n3 c1 c2 c3 by (simp add: getPromptForAttempt_def)
qed

theorem C8_prompts_witness:
  "(2::int) \<in> {1, 2, 3} \<and> (3::int) \<le> 7
   \<and> getPromptForAttempt 1 ''X'' \<noteq> getPromptForAttempt 2 ''X''
   \<and> getPromptForAttempt 2 ''X'' \<noteq> []
   \<and> (\<exists>before after. getPromptForAttempt 2 ''X'' = before @ ''X'' @ after)
   \<and> getPromptForAttempt 7 ''X'' = getPromptForAttempt 3 ''X''"
proof -
  note t = C8_prompts [of "''X''"]
  have m: "(2::int) \<in> {1, 2, 3}" by simp
  have g: "(3::int) \<le> 7" by simp
  have d: "getPromptForAttempt 1 ''X'' \<noteq> getPromptForAttempt 2 ''X''"
    by (rule t [THEN conjunct1])
  note q = t [THEN conjunct2, THEN conjunct2, THEN conjunct2, THEN conjunct1, THEN bspec, OF m]
  note r = t [THEN conjunct2, THEN conjunct2, THEN conjunct2, THEN conjunct2, THEN spec, THEN mp, OF g]
  show ?thesis
    by (intro conjI) (rule m g d q [THEN conjunct1] q [THEN conjunct2] r)+
qed

section \<open>The retry orchestrator\<close>

lemma tryBlock_Returns:
  "tryBlock e c i = (Returns v, evs) \<Longrightarrow>
   v = sentinel \<or> (validateMermaidScript v
     \<and> (\<exists>raw. attemptMermaidGeneration e c i = Inr raw \<and> v = cleanMermaidScript raw))"
  unfolding tryBlock_def Let_def by (auto split: sum.splits if_splits)

lemma tryCatch_Returns:
  "tryCatch e c i = (Returns v, evs) \<Longrightarrow> tryBlock e c i = (Returns v, evs)"
  unfolding tryCatch_def by (auto split: prod.splits completion.splits if_splits)

lemma retryLoop_Inr:
  "retryLoop e c i = (Inr v, evs) \<Longrightarrow>
   v = sentinel \<or> (validateMermaidScript v
     \<and> (\<exists>j raw. i \<le> j \<and> j \<le> maxRetryAttempts
           \<and> attemptMermaidGeneration e c j = Inr raw \<and> v = cleanMermaidScript raw))"
proof (induction e c i arbitrary: evs rule: retryLoop.induct)
  case (1 e c i)
  show ?case
  proof (cases "i \<le> maxRetryAttempts")
    case False
    with "1.prems" show ?thesis by (simp add: retryLoop.simps [of e c i])
  next
    case True
    obtain r es where tc: "tryCatch e c i = (r, es)" by (cases "tryCatch e c i")
    show ?thesis
    proof (cases r)
      case (Returns w)
      with tc True "1.prems" have "w = v" by (simp add: retryLoop.simps [of e c i])
      with tc Returns have "tryBlock e c i = (Returns v, es)" by (simp add: tryCatch_Returns)
      from tryBlock_Returns [OF this] True show ?thesis by auto
    next
      case (Throws err)
      with tc True "1.prems" show ?thesis by (simp add: retryLoop.simps [of e c i])
    next
      case Falls
      obtain r' es' where rl: "retryLoop e c (i + 1) = (r', es')" by (cases "retryLoop e c (i + 1)")
      with tc True Falls "1.prems" have "r' = Inr v" by (simp add: retryLoop.simps [of e c i])
      with rl have "retryLoop e c (i + 1) = (Inr v, es')" by simp
      from "1.IH" [OF True _ _ this] tc Falls
      show ?thesis by auto (metis Suc_leD)
    qed
  qed
qed

lemma retryLoop_skip:
  "list_all (\<lambda>j. fst (tryCatch e c j) = Falls) [a..<i] \<Longrightarrow> a \<le> i \<Longrightarrow> i \<le> maxRetryAttempts + 1 \<Longrightarrow>
   retryLoop e c a =
     (fst (retryLoop e c i), concat (map (\<lambda>j. snd (tryCatch e c j)) [a..<i]) @ snd (retryLoop e c i))"
proof (induction "i - a" arbitrary: a)
  case 0
  then have "a = i" by simp
  then show ?case by simp
next
  case (Suc n)
  then have lt: "a < i" and le: "a \<le> maxRetryAttempts" by auto
  from lt have upt: "[a..<i] = a # [a + 1..<i]" by (simp add: upt_conv_Cons)
  from Suc.prems(1) upt have f: "fst (tryCatch e c a) = Falls"
    and rest: "list_all (\<lambda>j. fst (tryCatch e c j) = Falls) [a + 1..<i]" by simp_all
  from Suc.hyps(2) have n: "n = i - (a + 1)" by simp
  from lt have "a + 1 \<le> i" by simp
  note ih = Suc.hyps(1) [OF n rest this Suc.prems(3)]
  obtain es where tc: "tryCatch e c a = (Falls, es)" using f by (cases "tryCatch e c a") auto
  have "retryLoop e c a = (fst (retryLoop e c (a + 1)), es @ snd (retryLoop e c (a + 1)))"
    by (subst retryLoop.simps) (simp add: le tc split: prod.splits)
  also have "\<dots> = (fst (retryLoop e c i),
      es @ concat (map (\<lambda>j. snd (tryCatch e c j)) [a + 1..<i]) @ snd (retryLoop e c i))"
    by (subst (1 2) ih) simp
  finally show ?case by (simp add: upt tc)
qed

lemma tryCatch_events_attempt:
  "ev \<in> set (snd (tryCatch e c j)) \<Longrightarrow> eventAttempt ev = j"
  unfolding tryCatch_def tryBlock_def Let_def
  by (auto split: sum.splits if_splits prod.splits completion.splits)

lemma tryBlock_sentinel:
  "attemptMermaidGeneration e c i = Inr sentinel \<Longrightarrow>
   tryBlock e c i = (Returns sentinel, [Executed i (getPromptForAttempt (int i) c)])"
  unfolding tryBlock_def Let_def by simp

lemma retryLoop_sentinel:
  "attemptMermaidGeneration e c i = Inr sentinel \<Longrightarrow> i \<le> maxRetryAttempts \<Longrightarrow>
   retryLoop e c i = (Inr sentinel, [Executed i (getPromptForAttempt (int i) c)])"
  by (subst retryLoop.simps) (simp add: tryCatch_def tryBlock_sentinel)

lemma generateBody_loop:
  "validateApiKey e \<Longrightarrow> filter isUserOrAssistant h \<noteq> [] \<Longrightarrow>
   generateBody e h = retryLoop e (conversationText (filter isUserOrAssistant h)) 1"
  unfolding generateBody_def Let_def by simp

lemma generate_Inr:
  "fst (generateMermaidScriptFromConversation e h) = Inr v \<Longrightarrow>
   validateApiKey e \<and> filter isUserOrAssistant h \<noteq> []
   \<and> fst (retryLoop e (conversationText (filter isUserOrAssistant h)) 1) = Inr v"
  unfolding generateMermaidScriptFromConversation_def generateBody_def Let_def
  by (auto split: prod.splits sum.splits if_splits)

text \<open>
  C1: whenever \<open>generateMermaidScriptFromConversation\<close> returns, the value is the sentinel
  \<open>NO_DIAGRAM\<close> or it is the cleaned text of an attempt and the validator accepts it.
\<close>

theorem C1_success:
  "fst (generateMermaidScriptFromConversation e h) = Inr v \<Longrightarrow>
   v = ''NO_DIAGRAM'' \<or>
   (validateMermaidScript v
    \<and> (\<exists>attempt raw. 1 \<le> attempt \<and> attempt \<le> maxRetryAttempts
          \<and> attemptMermaidGeneration e (conversationText (filter isUserOrAssistant h)) attempt = Inr raw
          \<and> v = cleanMermaidScript raw))"
proof -
  assume "fst (generateMermaidScriptFromConversation e h) = Inr v"
  then have "fst (retryLoop e (conversationText (filter isUserOrAssistant h)) 1) = Inr v"
    by (rule generate_Inr [THEN conjunct2, THEN conjunct2])
  then obtain evs where "retryLoop e (conversationText (filter isUserOrAssistant h)) 1 = (Inr v, evs)"
    by (cases "retryLoop e (conversationText (filter isUserOrAssistant h)) 1") simp
  from retryLoop_Inr [OF this] show ?thesis by (simp add: sentinel_def)
qed

lemma envValid_run: "fst (generateMermaidScriptFromConversation envValid sampleHistory) = Inr sampleScript"
  by code_simp

theorem C1_success_witness:
  "fst (generateMermaidScriptFromConversation envValid sampleHistory) = Inr sampleScript
   \<and> (sampleScript = ''NO_DIAGRAM'' \<or>
   (validateMermaidScript sampleScript
    \<and> (\<exists>attempt raw. 1 \<le> attempt \<and> attempt \<le> maxRetryAttempts
          \<and> attemptMermaidGeneration envValid (conversationText (filter isUserOrAssistant sampleHistory)) attempt = Inr raw
          \<and> sampleScript = cleanMermaidScript raw)))"
  using C1_success [OF envValid_run] envValid_run by blast

lemma userMessage_noContent: "noContentError \<in> set userMessages"
  by (simp add: userMessages_def)

lemma userMessage_authentication: "authenticationError \<in> set userMessages"
  by (simp add: userMessages_def)

text \<open>
  C4, amended: on a conversation without a message of role user or assistant the function
  makes no attempt and fails, with the message \<open>noContentError\<close> when the configured key
  passes \<open>validateApiKey\<close>, and with \<open>authenticationError\<close> when it does not.
\<close>

theorem C4_no_content:
  "\<forall>m \<in> set h. role m \<noteq> User \<and> role m \<noteq> Assistant \<Longrightarrow>
   generateMermaidScriptFromConversation e h =
     (Inl (Error (if validateApiKey e then noContentError else authenticationError)), [])"
proof -
  assume "\<forall>m \<in> set h. role m \<noteq> User \<and> role m \<noteq> Assistant"
  then have "filter isUserOrAssistant h = []"
    by (simp add: filter_empty_conv isUserOrAssistant_def)
  then show ?thesis
    unfolding generateMermaidScriptFromConversation_def generateBody_def Let_def
    by (simp add: userMessage_noContent userMessage_authentication)
qed

text \<open>
  C4, as stated: every such conversation fails with the message \<open>noContentError\<close>.  The
  key is checked first: without a key, a conversation of one system message fails with
  \<open>authenticationError\<close>.
\<close>

theorem C4_no_content_counterexample:
  "filter isUserOrAssistant [\<lparr>role = System, content = ''Be brief.''\<rparr>] = []
   \<and> fst (generateMermaidScriptFromConversation envNoKey [\<lparr>role = System, content = ''Be brief.''\<rparr>])
       = Inl (Error authenticationError)
   \<and> authenticationError \<noteq> noContentError"
  by code_simp

theorem C4_no_content_witness:
  "validateApiKey envValid
   \<and> generateMermaidScriptFromConversation envValid [\<lparr>role = System, content = ''Be brief.''\<rparr>]
       = (Inl (Error noContentError), [])"
proof -
  have k: "validateApiKey envValid" by code_simp
  have "\<forall>m \<in> set [\<lparr>role = System, content = ''Be brief.''\<rparr>]. role m \<noteq> User \<and> role m \<noteq> Assistant"
    by simp
  from C4_no_content [OF this, of envValid] k show ?thesis by simp
qed

lemma eventsUntil_attempt:
  "ev \<in> set (eventsUntil e c i) \<Longrightarrow> eventAttempt ev < i"
  unfolding eventsUntil_def by (auto dest: tryCatch_events_attempt)

lemma generate_from_loop:
  assumes "validateApiKey e" and "filter isUserOrAssistant h \<noteq> []"
    and "fallsUntil e (conversationText (filter isUserOrAssistant h)) i"
    and "1 \<le> i" and "i \<le> maxRetryAttempts + 1"
  shows "generateBody e h =
    (fst (retryLoop e (conversationText (filter isUserOrAssistant h)) i),
     eventsUntil e (conversationText (filter isUserOrAssistant h)) i
       @ snd (retryLoop e (conversationText (filter isUserOrAssistant h)) i))"
  using assms retryLoop_skip [of e "conversationText (filter isUserOrAssistant h)" 1 i]
  by (simp add: generateBody_loop fallsUntil_def eventsUntil_def)

text \<open>
  C5: when attempt \<open>i\<close> is reached and the executor returns the sentinel \<open>NO_DIAGRAM\<close>,
  the function returns the sentinel; the run ends with the call of the executor for attempt
  \<open>i\<close>, so neither the cleaner nor the validator is called in attempt \<open>i\<close> and no later
  attempt is made.
\<close>

theorem C5_sentinel_immediately:
  assumes "validateApiKey e" and "filter isUserOrAssistant h \<noteq> []"
    and "c = conversationText (filter isUserOrAssistant h)"
    and "1 \<le> i" and "i \<le> maxRetryAttempts"
    and "fallsUntil e c i"
    and "attemptMermaidGeneration e c i = Inr ''NO_DIAGRAM''"
  shows "generateMermaidScriptFromConversation e h =
           (Inr ''NO_DIAGRAM'', eventsUntil e c i @ [Executed i (getPromptForAttempt (int i) c)])
         \<and> (\<forall>ev \<in> set (eventsUntil e c i). eventAttempt ev < i)
         \<and> (\<forall>s. Cleaned i s \<notin> set (snd (generateMermaidScriptFromConversation e h))
                \<and> Validated i s \<notin> set (snd (generateMermaidScriptFromConversation e h)))
         \<and> (\<forall>j p. i < j \<longrightarrow> Executed j p \<notin> set (snd (generateMermaidScriptFromConversation e h)))"
proof -
  have loop: "retryLoop e c i = (Inr sentinel, [Executed i (getPromptForAttempt (int i) c)])"
    using assms(5,7) by (simp add: retryLoop_sentinel sentinel_def)
  have body: "generateBody e h =
      (Inr sentinel, eventsUntil e c i @ [Executed i (getPromptForAttempt (int i) c)])"
    using generate_from_loop [OF assms(1,2) assms(6) [unfolded assms(3)] assms(4)] assms(5) loop
    by (simp add: assms(3))
  have run: "generateMermaidScriptFromConversation e h =
      (Inr ''NO_DIAGRAM'', eventsUntil e c i @ [Executed i (getPromptForAttempt (int i) c)])"
    unfolding generateMermaidScriptFromConversation_def body by (simp add: sentinel_def)
  have early: "\<forall>ev \<in> set (eventsUntil e c i). eventAttempt ev < i"
    by (simp add: eventsUntil_attempt)
  have a: "\<forall>s. Cleaned i s \<notin> set (snd (generateMermaidScriptFromConversation e h))
                \<and> Validated i s \<notin> set (snd (generateMermaidScriptFromConversation e h))"
    unfolding run using early by fastforce
  have b: "\<forall>j p. i < j \<longrightarrow> Executed j p \<notin> set (snd (generateMermaidScriptFromConversation e h))"
    unfolding run using early by fastforce
  from run early a b show ?thesis by blast
qed

lemma envGarbageThenSentinel_key: "validateApiKey envGarbageThenSentinel"
  by code_simp

lemma sampleHistory_content: "conversationText (filter isUserOrAssistant sampleHistory) = sampleContent"
  by code_simp

lemma envGarbageThenSentinel_falls: "fallsUntil envGarbageThenSentinel sampleContent 2"
  by code_simp

lemma envGarbageThenSentinel_attempt: "attemptMermaidGeneration envGarbageThenSentinel sampleContent 2 = Inr ''NO_DIAGRAM''"
  by code_simp

theorem C5_sentinel_immediately_witness:
  "validateApiKey envGarbageThenSentinel
   \<and> fallsUntil envGarbageThenSentinel sampleContent 2
   \<and> attemptMermaidGeneration envGarbageThenSentinel sampleContent 2 = Inr ''NO_DIAGRAM''
   \<and> generateMermaidScriptFromConversation envGarbageThenSentinel sampleHistory =
       (Inr ''NO_DIAGRAM'', eventsUntil envGarbageThenSentinel sampleContent 2
          @ [Executed 2 (getPromptForAttempt 2 sampleContent)])"
proof -
  have ne: "filter isUserOrAssistant sampleHistory \<noteq> []"
    by (simp add: sampleHistory_def isUserOrAssistant_def)
  have i1: "(1::nat) \<le> 2" and i2: "(2::nat) \<le> maxRetryAttempts"
    by (simp_all add: maxRetryAttempts_def)
  note t = C5_sentinel_immediately [OF envGarbageThenSentinel_key ne sampleHistory_content [symmetric] i1 i2
      envGarbageThenSentinel_falls envGarbageThenSentinel_attempt]
  from t have "generateMermaidScriptFromConversation envGarbageThenSentinel sampleHistory =
       (Inr ''NO_DIAGRAM'', eventsUntil envGarbageThenSentinel sampleContent 2
          @ [Executed 2 (getPromptForAttempt 2 sampleContent)])"
    by simp
  with envGarbageThenSentinel_key envGarbageThenSentinel_falls envGarbageThenSentinel_attempt show ?thesis by blast
qed

lemma tryBlock_Throws:
  "tryBlock e c i = (Throws err, evs) \<Longrightarrow>
   err = Error validationFailed \<or> attemptMermaidGeneration e c i = Inl err"
  unfolding tryBlock_def Let_def by (auto split: sum.splits if_splits)

lemma tryCatch_Throws:
  "tryCatch e c i = (Throws err, evs) \<Longrightarrow> i = maxRetryAttempts \<and> tryBlock e c i = (Throws err, evs)"
  unfolding tryCatch_def by (auto split: prod.splits completion.splits if_splits)

lemma retryLoop_Inl:
  "retryLoop e c i = (Inl err, evs) \<Longrightarrow> i \<le> maxRetryAttempts \<Longrightarrow>
   err = Error validationFailed \<or> attemptMermaidGeneration e c maxRetryAttempts = Inl err"
proof (induction e c i arbitrary: evs rule: retryLoop.induct)
  case (1 e c i)
  obtain r es where tc: "tryCatch e c i = (r, es)" by (cases "tryCatch e c i")
  show ?case
  proof (cases r)
    case (Returns w)
    with tc "1.prems" show ?thesis by (simp add: retryLoop.simps [of e c i])
  next
    case (Throws err')
    with tc "1.prems" have "err' = err" by (simp add: retryLoop.simps [of e c i])
    with tc Throws have "tryCatch e c i = (Throws err, es)" by simp
    from tryCatch_Throws [OF this] tryBlock_Throws [of e c i err es] show ?thesis by auto
  next
    case Falls
    have lt: "i < maxRetryAttempts"
    proof (rule ccontr)
      assume "\<not> i < maxRetryAttempts"
      with "1.prems"(2) have "i = maxRetryAttempts" by simp
      with tc Falls show False
        unfolding tryCatch_def tryBlock_def Let_def
        by (auto split: sum.splits if_splits prod.splits completion.splits)
    qed
    obtain r' es' where rl: "retryLoop e c (i + 1) = (r', es')" by (cases "retryLoop e c (i + 1)")
    with tc Falls "1.prems" have "r' = Inl err" by (simp add: retryLoop.simps [of e c i])
    with rl have "retryLoop e c (i + 1) = (Inl err, es')" by simp
    from "1.IH" [OF "1.prems"(2) _ _ this] tc Falls lt
    show ?thesis by auto
  qed
qed

lemma userMessage_validationFailed: "validationFailed \<in> set userMessages"
  by (simp add: userMessages_def)

lemma userMessage_generationFailed: "generationFailed \<in> set userMessages"
  by (simp add: userMessages_def)

lemma userMessage_rateLimit: "rateLimitError \<in> set userMessages"
  by (simp add: userMessages_def)

lemma userMessage_network: "networkError \<in> set userMessages"
  by (simp add: userMessages_def)

lemma handleGeminiApiError_cases:
  "handleGeminiApiError (Error msg) = Error m \<Longrightarrow>
   m \<in> set userMessages \<or> m = msg"
  by (auto simp: Let_def userMessage_authentication userMessage_rateLimit userMessage_network
      split: if_splits)

lemma handleMermaidGenerationError_cases:
  "\<exists>m. handleMermaidGenerationError err = Error m
     \<and> (m \<in> set userMessages \<or> (err = Error m \<and> handleGeminiApiError (Error m) = Error m))"
proof (cases err)
  case NonError
  then show ?thesis by (simp add: userMessage_generationFailed)
next
  case (Error msg)
  show ?thesis
  proof (cases "msg \<in> set userMessages")
    case True
    with Error show ?thesis by simp
  next
    case False
    obtain m where m: "handleGeminiApiError (Error msg) = Error m"
      by (cases "handleGeminiApiError (Error msg)") (auto simp: Let_def split: if_splits)
    from handleGeminiApiError_cases [OF m] m Error False show ?thesis by auto
  qed
qed

lemma emptyResponse_not_userMessage: "emptyResponse \<notin> set userMessages"
  by code_simp

lemma emptyResponse_passes: "handleMermaidGenerationError (Error emptyResponse) = Error emptyResponse"
  by code_simp

lemma generate_Inl:
  "fst (generateMermaidScriptFromConversation e h) = Inl err \<Longrightarrow>
   \<exists>err'. fst (generateBody e h) = Inl err' \<and> err = handleMermaidGenerationError err'"
  unfolding generateMermaidScriptFromConversation_def
  by (auto split: prod.splits sum.splits)

lemma generateBody_Inl:
  "fst (generateBody e h) = Inl err \<Longrightarrow>
   err = Error authenticationError \<or> err = Error noContentError \<or> err = Error validationFailed
   \<or> attemptMermaidGeneration e (conversationText (filter isUserOrAssistant h)) maxRetryAttempts = Inl err"
proof -
  assume a: "fst (generateBody e h) = Inl err"
  show ?thesis
  proof (cases "validateApiKey e \<and> filter isUserOrAssistant h \<noteq> []")
    case False
    with a show ?thesis unfolding generateBody_def Let_def by (auto split: if_splits)
  next
    case True
    with a have "fst (retryLoop e (conversationText (filter isUserOrAssistant h)) 1) = Inl err"
      by (simp add: generateBody_loop)
    then obtain evs where "retryLoop e (conversationText (filter isUserOrAssistant h)) 1 = (Inl err, evs)"
      by (cases "retryLoop e (conversationText (filter isUserOrAssistant h)) 1") simp
    from retryLoop_Inl [OF this] show ?thesis by (simp add: maxRetryAttempts_def)
  qed
qed

lemma retryLoop_last_throw:
  "attemptMermaidGeneration e c maxRetryAttempts = Inl err \<Longrightarrow>
   retryLoop e c maxRetryAttempts =
     (Inl err, [Executed maxRetryAttempts (getPromptForAttempt (int maxRetryAttempts) c)])"
  by (subst retryLoop.simps) (simp add: tryCatch_def tryBlock_def Let_def)

lemma tryCatch_caught:
  "attemptMermaidGeneration e c i = Inl err \<Longrightarrow> i \<noteq> maxRetryAttempts \<Longrightarrow>
   tryCatch e c i = (Falls, [Executed i (getPromptForAttempt (int i) c)])"
  by (simp add: tryCatch_def tryBlock_def Let_def)

lemma tryCatch_executed:
  "Executed i (getPromptForAttempt (int i) c) \<in> set (snd (tryCatch e c i))"
  unfolding tryCatch_def tryBlock_def Let_def
  by (auto split: sum.splits prod.splits completion.splits)

lemma retryLoop_executed:
  "i \<le> maxRetryAttempts \<Longrightarrow>
   Executed i (getPromptForAttempt (int i) c) \<in> set (snd (retryLoop e c i))"
  using tryCatch_executed [of i c e]
  by (subst retryLoop.simps) (auto split: prod.splits completion.splits)

lemma fallsUntil_Suc:
  "1 \<le> i \<Longrightarrow> fallsUntil e c (Suc i) = (fallsUntil e c i \<and> fst (tryCatch e c i) = Falls)"
  unfolding fallsUntil_def by simp

text \<open>
  C2, amended: whenever the function fails, it throws an \<open>Error\<close> whose message is one of
  \<open>userMessages\<close> or is the message of the \<open>Error\<close> that the last attempt has thrown,
  which \<open>handleGeminiApiError\<close> passes on unchanged; when the last attempt fails because
  the accumulated response is empty after trimming, the message is
  \<open>Empty response received from Gemini API\<close>, which is not one of \<open>userMessages\<close>.
\<close>

theorem C2_failure_message:
  assumes "fst (generateMermaidScriptFromConversation e h) = Inl err"
    and "c = conversationText (filter isUserOrAssistant h)"
  shows "(\<exists>msg. err = Error msg
           \<and> (msg \<in> set userMessages
              \<or> (attemptMermaidGeneration e c maxRetryAttempts = Inl (Error msg)
                  \<and> handleGeminiApiError (Error msg) = Error msg)))
         \<and> (validateApiKey e \<and> filter isUserOrAssistant h \<noteq> []
              \<and> fallsUntil e c maxRetryAttempts
              \<and> generateContentStream e maxRetryAttempts
                    (getPromptForAttempt (int maxRetryAttempts) c) = Completes chunks
              \<and> trim (concat (map chunkText chunks)) = []
            \<longrightarrow> err = Error ''Empty response received from Gemini API''
                \<and> ''Empty response received from Gemini API'' \<notin> set userMessages)"
proof (intro conjI impI)
  from generate_Inl [OF assms(1)] obtain err' where
    b: "fst (generateBody e h) = Inl err'" and m: "err = handleMermaidGenerationError err'"
    by blast
  from handleMermaidGenerationError_cases [of err'] m obtain msg where
    e: "err = Error msg"
    and d: "msg \<in> set userMessages \<or> (err' = Error msg \<and> handleGeminiApiError (Error msg) = Error msg)"
    by auto
  show "\<exists>msg. err = Error msg
           \<and> (msg \<in> set userMessages
              \<or> (attemptMermaidGeneration e c maxRetryAttempts = Inl (Error msg)
                  \<and> handleGeminiApiError (Error msg) = Error msg))"
  proof (cases "msg \<in> set userMessages")
    case True
    with e show ?thesis by blast
  next
    case False
    with d have p: "err' = Error msg" and q: "handleGeminiApiError (Error msg) = Error msg" by auto
    from generateBody_Inl [OF b] p False
    have "attemptMermaidGeneration e c maxRetryAttempts = Inl (Error msg)"
      by (auto simp: assms(2) userMessage_authentication userMessage_noContent
          userMessage_validationFailed)
    with e q show ?thesis by blast
  qed
next
  assume a: "validateApiKey e \<and> filter isUserOrAssistant h \<noteq> []
              \<and> fallsUntil e c maxRetryAttempts
              \<and> generateContentStream e maxRetryAttempts
                    (getPromptForAttempt (int maxRetryAttempts) c) = Completes chunks
              \<and> trim (concat (map chunkText chunks)) = []"
  then have "attemptMermaidGeneration e c maxRetryAttempts = Inl (Error emptyResponse)"
    by (simp add: attemptMermaidGeneration_def Let_def)
  then have loop: "retryLoop e c maxRetryAttempts =
     (Inl (Error emptyResponse), [Executed maxRetryAttempts (getPromptForAttempt (int maxRetryAttempts) c)])"
    by (rule retryLoop_last_throw)
  have "generateBody e h = (Inl (Error emptyResponse),
      eventsUntil e c maxRetryAttempts
        @ [Executed maxRetryAttempts (getPromptForAttempt (int maxRetryAttempts) c)])"
    using a generate_from_loop [of e h maxRetryAttempts] loop
    by (simp add: assms(2) maxRetryAttempts_def)
  then have "fst (generateMermaidScriptFromConversation e h) = Inl (Error emptyResponse)"
    unfolding generateMermaidScriptFromConversation_def
    by (simp add: emptyResponse_passes del: handleMermaidGenerationError.simps)
  with assms(1) show "err = Error ''Empty response received from Gemini API''"
    by (simp add: emptyResponse_def)
next
  show "''Empty response received from Gemini API'' \<notin> set userMessages"
    using emptyResponse_not_userMessage by (simp add: emptyResponse_def)
qed

text \<open>
  C2, as stated: the message of every failure is one of \<open>userMessages\<close>, also when the last
  attempt fails on an empty response.  With a backend that answers every call with white
  space only, the message is that of the executor, which is not in \<open>userMessages\<close>.
\<close>

theorem C2_failure_message_counterexample:
  "attemptMermaidGeneration envEmpty (conversationText (filter isUserOrAssistant sampleHistory))
       maxRetryAttempts = Inl (Error ''Empty response received from Gemini API'')
   \<and> fst (generateMermaidScriptFromConversation envEmpty sampleHistory)
       = Inl (Error ''Empty response received from Gemini API'')
   \<and> ''Empty response received from Gemini API'' \<notin> set userMessages"
  by code_simp

lemma envEmpty_run:
  "fst (generateMermaidScriptFromConversation envEmpty sampleHistory) = Inl (Error emptyResponse)"
  by code_simp

lemma envEmpty_premises:
  "validateApiKey envEmpty \<and> filter isUserOrAssistant sampleHistory \<noteq> []
     \<and> fallsUntil envEmpty sampleContent maxRetryAttempts
     \<and> generateContentStream envEmpty maxRetryAttempts
           (getPromptForAttempt (int maxRetryAttempts) sampleContent) = Completes [Some [Some ''  '', None], None]
     \<and> trim (concat (map chunkText [Some [Some ''  '', None], None])) = []"
  by code_simp

theorem C2_failure_message_witness:
  "fst (generateMermaidScriptFromConversation envEmpty sampleHistory) = Inl (Error emptyResponse)
   \<and> validateApiKey envEmpty \<and> filter isUserOrAssistant sampleHistory \<noteq> []
   \<and> fallsUntil envEmpty sampleContent maxRetryAttempts
   \<and> generateContentStream envEmpty maxRetryAttempts
           (getPromptForAttempt (int maxRetryAttempts) sampleContent) = Completes [Some [Some ''  '', None], None]
   \<and> trim (concat (map chunkText [Some [Some ''  '', None], None])) = []
   \<and> Error emptyResponse = Error ''Empty response received from Gemini API''
   \<and> ''Empty response received from Gemini API'' \<notin> set userMessages"
  using C2_failure_message [OF envEmpty_run sampleHistory_content [symmetric],
      of "[Some [Some ''  '', None], None]"] envEmpty_run envEmpty_premises
  by blast

lemma authentication_userMessage:
  "list_all (\<lambda>m. isAuthenticationError (Error m) \<longrightarrow> m = authenticationError) userMessages"
  by code_simp

lemma handle_authentication:
  assumes "isAuthenticationError err"
  shows "handleMermaidGenerationError err = Error authenticationError"
proof (cases err)
  case NonError
  with assms show ?thesis by simp
next
  case (Error msg)
  show ?thesis
  proof (cases "msg \<in> set userMessages")
    case True
    with authentication_userMessage assms Error have "msg = authenticationError"
      by (simp add: list_all_iff del: isAuthenticationError.simps)
    with Error True show ?thesis by simp
  next
    case False
    with Error assms show ?thesis by (simp add: Let_def)
  qed
qed

text \<open>
  C3, amended: an authentication error of an attempt below \<open>maxRetryAttempts\<close> is caught
  like any other error and the next attempt is started; an authentication error of the
  last attempt is surfaced, as the message \<open>authenticationError\<close>, with no further attempt.
\<close>

theorem C3_authentication_retried:
  assumes "validateApiKey e" and "filter isUserOrAssistant h \<noteq> []"
    and "c = conversationText (filter isUserOrAssistant h)"
    and "1 \<le> i" and "i \<le> maxRetryAttempts"
    and "fallsUntil e c i"
    and "attemptMermaidGeneration e c i = Inl err"
    and "isAuthenticationError err"
  shows "(i < maxRetryAttempts \<longrightarrow>
            Executed (i + 1) (getPromptForAttempt (int (i + 1)) c)
              \<in> set (snd (generateMermaidScriptFromConversation e h)))
         \<and> (i = maxRetryAttempts \<longrightarrow>
            generateMermaidScriptFromConversation e h =
              (Inl (Error authenticationError),
               eventsUntil e c i @ [Executed i (getPromptForAttempt (int i) c)]))"
proof (intro conjI impI)
  assume lt: "i < maxRetryAttempts"
  with assms(7) have "tryCatch e c i = (Falls, [Executed i (getPromptForAttempt (int i) c)])"
    by (simp add: tryCatch_caught)
  with assms(4,6) have f: "fallsUntil e c (i + 1)" by (simp add: fallsUntil_Suc)
  from lt have le: "i + 1 \<le> maxRetryAttempts + 1" by simp
  have "1 \<le> i + 1" by simp
  from generate_from_loop [OF assms(1,2) f [unfolded assms(3)] this le]
  have "snd (generateBody e h) = eventsUntil e c (i + 1) @ snd (retryLoop e c (i + 1))"
    by (simp add: assms(3))
  moreover have "snd (generateMermaidScriptFromConversation e h) = snd (generateBody e h)"
    unfolding generateMermaidScriptFromConversation_def by (simp split: prod.splits sum.splits)
  moreover from lt have "Executed (i + 1) (getPromptForAttempt (int (i + 1)) c)
      \<in> set (snd (retryLoop e c (i + 1)))"
    by (intro retryLoop_executed) simp
  ultimately show "Executed (i + 1) (getPromptForAttempt (int (i + 1)) c)
              \<in> set (snd (generateMermaidScriptFromConversation e h))"
    by simp
next
  assume eq: "i = maxRetryAttempts"
  with assms(7) have loop: "retryLoop e c i = (Inl err, [Executed i (getPromptForAttempt (int i) c)])"
    by (simp add: retryLoop_last_throw)
  from assms(5) have "i \<le> maxRetryAttempts + 1" by simp
  from generate_from_loop [OF assms(1,2) assms(6) [unfolded assms(3)] assms(4) this] loop
  have "generateBody e h = (Inl err, eventsUntil e c i @ [Executed i (getPromptForAttempt (int i) c)])"
    by (simp add: assms(3))
  then show "generateMermaidScriptFromConversation e h =
              (Inl (Error authenticationError),
               eventsUntil e c i @ [Executed i (getPromptForAttempt (int i) c)])"
    unfolding generateMermaidScriptFromConversation_def
    by (simp add: handle_authentication [OF assms(8)] del: handleMermaidGenerationError.simps)
qed

text \<open>
  C3, as stated: an authentication error of an attempt is surfaced at once, also below
  \<open>maxRetryAttempts\<close>.  With a backend that rejects the first call with an authentication
  error and answers the second with a valid script, attempt 2 is made and the function
  returns the script.
\<close>

theorem C3_authentication_retried_counterexample:
  "isAuthenticationError (Error ''API key not valid'')
   \<and> attemptMermaidGeneration envAuthThenValid
         (conversationText (filter isUserOrAssistant sampleHistory)) 1
       = Inl (Error ''API key not valid'')
   \<and> (1::nat) < maxRetryAttempts
   \<and> fst (generateMermaidScriptFromConversation envAuthThenValid sampleHistory) = Inr sampleScript
   \<and> Executed 2 (getPromptForAttempt 2 (conversationText (filter isUserOrAssistant sampleHistory)))
       \<in> set (snd (generateMermaidScriptFromConversation envAuthThenValid sampleHistory))"
  by code_simp

lemma envAuthAlways_premises:
  "validateApiKey envAuthAlways \<and> filter isUserOrAssistant sampleHistory \<noteq> []
   \<and> fallsUntil envAuthAlways sampleContent 3
   \<and> attemptMermaidGeneration envAuthAlways sampleContent 3 = Inl (Error ''API key not valid'')
   \<and> isAuthenticationError (Error ''API key not valid'')"
  by code_simp

theorem C3_authentication_retried_witness:
  "validateApiKey envAuthAlways \<and> filter isUserOrAssistant sampleHistory \<noteq> []
   \<and> fallsUntil envAuthAlways sampleContent 3
   \<and> attemptMermaidGeneration envAuthAlways sampleContent 3 = Inl (Error ''API key not valid'')
   \<and> isAuthenticationError (Error ''API key not valid'')
   \<and> (3::nat) = maxRetryAttempts
   \<and> generateMermaidScriptFromConversation envAuthAlways sampleHistory =
        (Inl (Error authenticationError),
         eventsUntil envAuthAlways sampleContent 3 @ [Executed 3 (getPromptForAttempt 3 sampleContent)])"
proof -
  note p = envAuthAlways_premises
  have i1: "(1::nat) \<le> 3" and i2: "(3::nat) \<le> maxRetryAttempts" and i3: "(3::nat) = maxRetryAttempts"
    by (simp_all add: maxRetryAttempts_def)
  note t = C3_authentication_retried [OF p [THEN conjunct1] p [THEN conjunct2, THEN conjunct1]
      sampleHistory_content [symmetric] i1 i2
      p [THEN conjunct2, THEN conjunct2, THEN conjunct1]
      p [THEN conjunct2, THEN conjunct2, THEN conjunct2, THEN conjunct1]
      p [THEN conjunct2, THEN conjunct2, THEN conjunct2, THEN conjunct2]]
  from t [THEN conjunct2, THEN mp, OF i3]
  have "generateMermaidScriptFromConversation envAuthAlways sampleHistory =
        (Inl (Error authenticationError),
         eventsUntil envAuthAlways sampleContent 3 @ [Executed 3 (getPromptForAttempt 3 sampleContent)])"
    by simp
  with p i3 show ?thesis by blast
qed

end
